theory Spec2Isabelle
  imports Main "HOL-Library.AList"
begin

section \<open>Values, objects and the store\<close>

text \<open>
  The mixin module works on plain JavaScript objects that it reads by key, tests
  dynamically (\<open>typeof v === 'function'\<close>, \<open>Array.isArray\<close>, \<open>== null\<close>,
  \<open>!== undefined\<close>, \<open>||\<close>) and mutates in place. Objects and arrays therefore live
  in a store and are reached through references, so that two properties may hold the
  same object. A plain object is its list of own properties in insertion order; a
  missing key reads as \<open>undefined\<close>. Inherited properties of \<open>Object.prototype\<close>
  are not part of the model.

  A function value is either a function written by the user, known by an identifier
  only, or one of the three functions the module itself creates: \<open>noop\<close>, the
  \<open>onLoad\<close> method of class \<open>OnLoad\<close>, and the closure that \<open>mixMethods\<close>
  installs for a lifecycle event, which keeps a reference to its \<open>methodsList\<close> array.
\<close>

type_synonym addr = nat
type_synonym fid = nat

datatype fn = UserFn fid | Noop | OnLoadFn | Dispatcher addr

datatype jsval =
    VUndefined | VNull | VBool bool | VNum int | VStr string | VFun fn | VRef addr

type_synonym props = "(string \<times> jsval) list"

datatype cell = Obj props | Arr "jsval list"

type_synonym store = "cell list"

text \<open>
  \<open>TypeError\<close> is the error JavaScript raises (calling a value that is not a function,
  reading a property of \<open>null\<close>). \<open>Unsupported\<close> marks an input whose shape lies outside
  the interfaces \<open>PageConfig\<close>, \<open>Mixin\<close>, \<open>Data\<close> and \<open>Methods\<close> declared by the
  module and that the model does not follow further.
\<close>

datatype error = TypeError | Unsupported

definition cell_at :: "store \<Rightarrow> addr \<Rightarrow> cell option" where
  "cell_at s a = (if a < length s then Some (s ! a) else None)"

definition alloc :: "store \<Rightarrow> cell \<Rightarrow> addr \<times> store" where
  "alloc s c = (length s, s @ [c])"

definition get_prop :: "props \<Rightarrow> string \<Rightarrow> jsval" where
  "get_prop ps k = (case map_of ps k of None \<Rightarrow> VUndefined | Some v \<Rightarrow> v)"

definition set_prop :: "props \<Rightarrow> string \<Rightarrow> jsval \<Rightarrow> props" where
  "set_prop ps k v = AList.update k v ps"

definition object_keys :: "props \<Rightarrow> string list" where
  "object_keys ps = map fst ps"

text \<open>\<open>v[k]\<close> for a value \<open>v\<close> that is neither \<open>null\<close> nor \<open>undefined\<close>.\<close>

definition member :: "store \<Rightarrow> jsval \<Rightarrow> string \<Rightarrow> jsval" where
  "member s v k =
     (case v of
        VRef a \<Rightarrow> (case cell_at s a of Some (Obj ps) \<Rightarrow> get_prop ps k | _ \<Rightarrow> VUndefined)
      | _ \<Rightarrow> VUndefined)"

text \<open>\<open>o[k] = v\<close> on the object at address \<open>a\<close>.\<close>

definition set_member :: "store \<Rightarrow> addr \<Rightarrow> string \<Rightarrow> jsval \<Rightarrow> store" where
  "set_member s a k v =
     (case cell_at s a of Some (Obj ps) \<Rightarrow> s[a := Obj (set_prop ps k v)] | _ \<Rightarrow> s)"

definition nullish :: "jsval \<Rightarrow> bool" where
  "nullish v = (v = VUndefined \<or> v = VNull)"

definition truthy :: "jsval \<Rightarrow> bool" where
  "truthy v =
     (case v of
        VUndefined \<Rightarrow> False | VNull \<Rightarrow> False | VBool b \<Rightarrow> b | VNum n \<Rightarrow> n \<noteq> 0
      | VStr t \<Rightarrow> t \<noteq> [] | VFun f \<Rightarrow> True | VRef a \<Rightarrow> True)"

definition isFunction :: "jsval \<Rightarrow> bool" where
  "isFunction v = (case v of VFun f \<Rightarrow> True | _ \<Rightarrow> False)"

definition isArray :: "store \<Rightarrow> jsval \<Rightarrow> bool" where
  "isArray s v =
     (case v of
        VRef a \<Rightarrow> (case cell_at s a of Some (Arr vs) \<Rightarrow> True | _ \<Rightarrow> False)
      | _ \<Rightarrow> False)"

definition elems :: "store \<Rightarrow> jsval \<Rightarrow> jsval list" where
  "elems s v =
     (case v of
        VRef a \<Rightarrow> (case cell_at s a of Some (Arr vs) \<Rightarrow> vs | _ \<Rightarrow> [])
      | _ \<Rightarrow> [])"

text \<open>A destructuring default \<open>{ x = d }\<close> applies to \<open>undefined\<close> only.\<close>

definition dflt :: "jsval \<Rightarrow> jsval \<Rightarrow> jsval" where
  "dflt v d = (if v = VUndefined then d else v)"

section \<open>Calls\<close>

text \<open>
  A user function is opaque: the environment gives the value it returns for a receiver
  and an argument list, and every call of one is appended to a log, which is what the
  properties about invocation order speak of. A call runs on the store and the log. It may
  raise, and it may fail to return: the functions of the module can be nested in one
  another by feeding a merged configuration back in, so calls take fuel and \<open>None\<close>
  stands for a call that has not returned within it.
\<close>

type_synonym event = "fid \<times> jsval \<times> jsval list"
type_synonym state = "store \<times> event list"
type_synonym 'a run = "state \<Rightarrow> ((error + 'a) \<times> state) option"
type_synonym callable = "jsval list \<Rightarrow> jsval run"
type_synonym env = "fid \<Rightarrow> jsval \<Rightarrow> jsval list \<Rightarrow> jsval"

definition returns :: "'a \<Rightarrow> 'a run" where
  "returns v = (\<lambda>st. Some (Inr v, st))"

definition raises :: "error \<Rightarrow> 'a run" where
  "raises e = (\<lambda>st. Some (Inl e, st))"

definition andThen :: "'a run \<Rightarrow> ('a \<Rightarrow> 'b run) \<Rightarrow> 'b run" where
  "andThen m f =
     (\<lambda>st. case m st of
        None \<Rightarrow> None
      | Some (Inl e, st') \<Rightarrow> Some (Inl e, st')
      | Some (Inr v, st') \<Rightarrow> f v st')"

definition arg0 :: "jsval list \<Rightarrow> jsval" where
  "arg0 args = (case args of [] \<Rightarrow> VUndefined | a # _ \<Rightarrow> a)"

text \<open>
  \<open>xs.reduceRight(cb, init)\<close>: the initial value is computed first, then the callback
  visits the elements from the last to the first.
\<close>

definition reduceRight ::
  "(jsval \<Rightarrow> callable \<Rightarrow> jsval run) \<Rightarrow> callable list \<Rightarrow> jsval run \<Rightarrow> jsval run" where
  "reduceRight cb xs init = foldr (\<lambda>f acc. andThen acc (\<lambda>composed. cb composed f)) xs init"

text \<open>
  \<open>compose(...funcs)\<close>, taken from redux: \<open>(arg) => arg\<close> for no function, \<open>funcs[0]\<close>
  for one, and otherwise
  \<open>(...args) => rest.reduceRight((composed, f) => f(composed), last(...args))\<close>
  with \<open>last = funcs[funcs.length - 1]\<close> and \<open>rest = funcs.slice(0, -1)\<close>.
\<close>

definition compose :: "callable list \<Rightarrow> callable" where
  "compose funcs =
     (if length funcs = 0 then (\<lambda>args. returns (arg0 args))
      else if length funcs = 1 then funcs ! 0
      else
        (let lst = funcs ! (length funcs - 1);
             rest = butlast funcs
         in (\<lambda>args. reduceRight (\<lambda>composed f. f [composed]) rest (lst args))))"

text \<open>
  Calling a value \<open>f\<close> with a receiver and arguments.
  \<^item> A user function returns what the environment says and is logged.
  \<^item> \<open>noop\<close> is \<open>function () {}\<close>.
  \<^item> \<open>onLoad (opts)\<close> of class \<open>OnLoad\<close> is \<open>this.onBeforeLoad(opts)\<close>, then
    \<open>this.onNativeLoad(opts)\<close>, then \<open>this.onAfterLoad(opts)\<close>; each property is read
    from the receiver when its turn comes, and the method has no \<open>return\<close>.
  \<^item> The closure installed for a lifecycle event is
    \<open>function (...args) { compose(...methodsList.reverse().map(f => f.bind(this)))(...args) }\<close>.
    \<open>Array.prototype.reverse\<close> reverses the array in place, and the array is the one the
    closure keeps; \<open>f.bind\<close> raises for a value without that method before any handler
    runs; the body has no \<open>return\<close>.
  \<^item> Calling anything else raises.
\<close>

primrec call :: "nat \<Rightarrow> env \<Rightarrow> jsval \<Rightarrow> jsval \<Rightarrow> jsval list \<Rightarrow> jsval run" where
  "call 0 env f this args = (\<lambda>st. None)"
| "call (Suc n) env f this args =
     (case f of
        VFun (UserFn h) \<Rightarrow>
          (\<lambda>st. Some (Inr (env h this args), (fst st, snd st @ [(h, this, args)])))
      | VFun Noop \<Rightarrow> returns VUndefined
      | VFun OnLoadFn \<Rightarrow>
          (let opts = arg0 args in
           andThen (\<lambda>st. call n env (member (fst st) this ''onBeforeLoad'') this [opts] st) (\<lambda>_.
           andThen (\<lambda>st. call n env (member (fst st) this ''onNativeLoad'') this [opts] st) (\<lambda>_.
           andThen (\<lambda>st. call n env (member (fst st) this ''onAfterLoad'') this [opts] st) (\<lambda>_.
           returns VUndefined))))
      | VFun (Dispatcher a) \<Rightarrow>
          (\<lambda>st. case cell_at (fst st) a of
             Some (Arr methodsList) \<Rightarrow>
               (let reversed = rev methodsList;
                    st' = ((fst st)[a := Arr reversed], snd st)
                in if list_all isFunction reversed
                   then andThen (compose (map (\<lambda>f. call n env f this) reversed) args)
                          (\<lambda>_. returns VUndefined) st'
                   else Some (Inl TypeError, st'))
           | _ \<Rightarrow> Some (Inl TypeError, st))
      | _ \<Rightarrow> raises TypeError)"

text \<open>
  The host framework invokes a property of the page with the page as receiver.
\<close>

definition invoke :: "nat \<Rightarrow> env \<Rightarrow> addr \<Rightarrow> string \<Rightarrow> jsval list \<Rightarrow> jsval run" where
  "invoke n env p key args =
     (\<lambda>st. call n env (member (fst st) (VRef p) key) (VRef p) args st)"

section \<open>The merge\<close>

definition PAGE_EVENT :: "string list" where
  "PAGE_EVENT = [''onLoad'', ''onReady'', ''onShow'', ''onHide'', ''onUnload'',
                 ''onPullDownRefresh'', ''onReachBottom'', ''onShareAppMessage'']"

fun forEachE :: "('a \<Rightarrow> 'b \<Rightarrow> error + 'b) \<Rightarrow> 'a list \<Rightarrow> 'b \<Rightarrow> error + 'b" where
  "forEachE f [] acc = Inr acc"
| "forEachE f (x # xs) acc =
     (case f x acc of Inl e \<Rightarrow> Inl e | Inr acc' \<Rightarrow> forEachE f xs acc')"

text \<open>
  \<open>let { data = {} } = mixin\<close> followed by \<open>Object.keys(data)\<close>, each key paired with
  \<open>data[key]\<close>. \<open>Object.keys(null)\<close> raises; a boolean, a number or a function has
  no own enumerable keys; arrays and strings in the place of a mapping are not followed.
\<close>

definition entries :: "props \<Rightarrow> props" where
  "entries ps = map (\<lambda>key. (key, get_prop ps key)) (object_keys ps)"

definition own_entries :: "store \<Rightarrow> jsval \<Rightarrow> error + props" where
  "own_entries s v =
     (case v of
        VUndefined \<Rightarrow> Inr []
      | VNull \<Rightarrow> Inl TypeError
      | VRef a \<Rightarrow>
          (case cell_at s a of
             Some (Obj ps) \<Rightarrow> Inr (entries ps)
           | _ \<Rightarrow> Inl Unsupported)
      | VStr t \<Rightarrow> Inl Unsupported
      | _ \<Rightarrow> Inr [])"

text \<open>
  \<open>getMixinData\<close>: for each mixin in list order and each key of its data in key order,
  \<open>ret[key] = data[key]\<close>, starting from \<open>ret = {}\<close>. Reading \<open>data\<close> from a mixin that
  is \<open>null\<close> or \<open>undefined\<close> raises.
\<close>

definition getMixinData_step :: "store \<Rightarrow> jsval \<Rightarrow> props \<Rightarrow> error + props" where
  "getMixinData_step s mixin ret =
     (if nullish mixin then Inl TypeError
      else case own_entries s (member s mixin ''data'') of
             Inl e \<Rightarrow> Inl e
           | Inr es \<Rightarrow> Inr (fold (\<lambda>(key, v) r. set_prop r key v) es ret))"

definition getMixinData :: "store \<Rightarrow> jsval list \<Rightarrow> error + props" where
  "getMixinData s mixins = forEachE (getMixinData_step s) mixins []"

text \<open>
  \<open>getMixinMethods\<close>, for one mixin. First its \<open>methods\<close>: an entry that is not a
  function is skipped, so is the key \<open>onLoad\<close>, and otherwise \<open>ret[key] = method\<close>. Then
  each name of \<open>PAGE_EVENT\<close>, read from the mixin itself: a value that is not a function
  is skipped, so is \<open>onLoad\<close>; if \<open>ret[key]\<close> is an array the result is the new array
  \<open>[...value, method]\<close>, and otherwise the new array \<open>[method]\<close>.
\<close>

definition methods_pass :: "props \<Rightarrow> props \<Rightarrow> props" where
  "methods_pass es ret =
     fold (\<lambda>(key, method) r.
             if \<not> isFunction method then r
             else if key = ''onLoad'' then r
             else set_prop r key method) es ret"

definition lifecycle_step :: "jsval \<Rightarrow> string \<Rightarrow> props \<times> store \<Rightarrow> props \<times> store" where
  "lifecycle_step mixin key rs =
     (let ret = fst rs; s = snd rs; method = member s mixin key in
      if \<not> isFunction method then rs
      else if key = ''onLoad'' then rs
      else
        (let v = get_prop ret key in
         if truthy v \<and> isArray s v
         then (let (a, s') = alloc s (Arr (elems s v @ [method])) in (set_prop ret key (VRef a), s'))
         else (let (a, s') = alloc s (Arr [method]) in (set_prop ret key (VRef a), s'))))"

definition getMixinMethods_step ::
  "jsval \<Rightarrow> props \<times> store \<Rightarrow> error + props \<times> store" where
  "getMixinMethods_step mixin rs =
     (if nullish mixin then Inl TypeError
      else case own_entries (snd rs) (member (snd rs) mixin ''methods'') of
             Inl e \<Rightarrow> Inl e
           | Inr es \<Rightarrow> Inr (fold (lifecycle_step mixin) PAGE_EVENT (methods_pass es (fst rs), snd rs)))"

definition getMixinMethods :: "store \<Rightarrow> jsval list \<Rightarrow> error + props \<times> store" where
  "getMixinMethods s mixins = forEachE getMixinMethods_step mixins ([], s)"

text \<open>
  \<open>mixData\<close>: for each key of the collected data, nothing if
  \<open>nativeData[key] !== undefined\<close>, and otherwise \<open>nativeData[key] = mixinData[key]\<close>. The
  page's data object is changed in place.
\<close>

definition mixData :: "props \<Rightarrow> addr \<Rightarrow> store \<Rightarrow> store" where
  "mixData mixinData nativeData s =
     fold (\<lambda>key s. if member s (VRef nativeData) key \<noteq> VUndefined then s
                   else set_member s nativeData key (get_prop mixinData key))
          (object_keys mixinData) s"

text \<open>
  \<open>mixMethods\<close>, for one key of the collected methods. For a name of \<open>PAGE_EVENT\<close>:
  nothing unless the collected value is an array; the page's own value is pushed onto that
  array if it is a function; the closure over the array is stored under the key. For any
  other key: \<open>if (pageConf[key] == null) pageConf[key] = method\<close>.
\<close>

definition mixMethods_step :: "props \<Rightarrow> addr \<Rightarrow> string \<Rightarrow> store \<Rightarrow> store" where
  "mixMethods_step mixinMethods pageConf key s =
     (let method = get_prop mixinMethods key in
      if key \<in> set PAGE_EVENT then
        (case method of
           VRef a \<Rightarrow>
             (case cell_at s a of
                Some (Arr methodsList) \<Rightarrow>
                  (let own = member s (VRef pageConf) key;
                       s1 = (if isFunction own then s[a := Arr (methodsList @ [own])] else s)
                   in set_member s1 pageConf key (VFun (Dispatcher a)))
              | _ \<Rightarrow> s)
         | _ \<Rightarrow> s)
      else
        (if nullish (member s (VRef pageConf) key) then set_member s pageConf key method
         else s))"

definition mixMethods :: "props \<Rightarrow> addr \<Rightarrow> store \<Rightarrow> store" where
  "mixMethods mixinMethods pageConf s =
     fold (mixMethods_step mixinMethods pageConf) (object_keys mixinMethods) s"

text \<open>\<open>Object.assign(o, src)\<close> on the object at an address.\<close>

definition assign :: "store \<Rightarrow> addr \<Rightarrow> props \<Rightarrow> store" where
  "assign s a src = fold (\<lambda>(key, v) s. set_member s a key v) src s"

text \<open>
  \<open>mixins = []\<close> with the later \<open>mixins.forEach\<close>: only an array has \<open>forEach\<close>.
\<close>

definition mixins_of :: "store \<Rightarrow> jsval \<Rightarrow> error + jsval list" where
  "mixins_of s v =
     (case v of
        VUndefined \<Rightarrow> Inr []
      | VRef a \<Rightarrow> (case cell_at s a of Some (Arr ms) \<Rightarrow> Inr ms | _ \<Rightarrow> Inl TypeError)
      | _ \<Rightarrow> Inl TypeError)"

text \<open>
  \<open>pageConf.data || {}\<close>: a falsy value gives a fresh object. The declared type of
  \<open>data\<close> is a mapping; another truthy value is not followed.
\<close>

definition nativeData_of :: "store \<Rightarrow> jsval \<Rightarrow> error + addr \<times> store" where
  "nativeData_of s v =
     (if truthy v then
        (case v of
           VRef d \<Rightarrow> (case cell_at s d of Some (Obj ps) \<Rightarrow> Inr (d, s) | _ \<Rightarrow> Inl Unsupported)
         | _ \<Rightarrow> Inl Unsupported)
      else Inr (alloc s (Obj [])))"

text \<open>
  The default export. It receives the page configuration by reference, changes it in
  place and returns the same reference, so the result is the final store.
\<close>

definition mixin :: "store \<Rightarrow> addr \<Rightarrow> error + store" where
  "mixin s p =
     (case cell_at s p of
        Some (Obj pageConf) \<Rightarrow>
          (let mixinsV = get_prop pageConf ''mixins'';
               onBeforeLoad = dflt (get_prop pageConf ''onBeforeLoad'') (VFun Noop);
               onAfterLoad = dflt (get_prop pageConf ''onAfterLoad'') (VFun Noop);
               onNativeLoad = (if truthy (get_prop pageConf ''onLoad'')
                               then get_prop pageConf ''onLoad'' else VFun Noop)
           in case nativeData_of s (get_prop pageConf ''data'') of
                Inl e \<Rightarrow> Inl e
              | Inr (nativeData, s0) \<Rightarrow>
                  (case mixins_of s0 mixinsV of
                     Inl e \<Rightarrow> Inl e
                   | Inr mixins \<Rightarrow>
                       (case getMixinData s0 mixins of
                          Inl e \<Rightarrow> Inl e
                        | Inr mixinData \<Rightarrow>
                            (case getMixinMethods s0 mixins of
                               Inl e \<Rightarrow> Inl e
                             | Inr (mixinMethods, s1) \<Rightarrow>
                                 (let s2 = mixData mixinData nativeData s1;
                                      s3 = assign s2 p
                                             [(''data'', VRef nativeData),
                                              (''onLoad'', VFun OnLoadFn),
                                              (''onBeforeLoad'', onBeforeLoad),
                                              (''onAfterLoad'', onAfterLoad),
                                              (''onNativeLoad'', onNativeLoad)]
                                  in Inr (mixMethods mixinMethods p s3))))))
      | _ \<Rightarrow> Inl Unsupported)"

section \<open>Notions used to state the properties\<close>

text \<open>
  The chain the function composer is meant to run after its last element: each callable
  receives, as its only argument, the value returned by the one before it.
\<close>

fun threaded :: "callable list \<Rightarrow> jsval \<Rightarrow> jsval run" where
  "threaded [] v = returns v"
| "threaded (g # gs) v = andThen (g [v]) (threaded gs)"

text \<open>
  What the module reads from its input, as total functions on the store the merge starts
  from: the entries of a mixin's \<open>data\<close> and \<open>methods\<close> mappings, the list of
  mixins of the page and the page's own data mapping. A part that is missing reads as
  empty.
\<close>

definition entries_of :: "store \<Rightarrow> jsval \<Rightarrow> props" where
  "entries_of s v = (case own_entries s v of Inr es \<Rightarrow> es | Inl e \<Rightarrow> [])"

definition mixin_data :: "store \<Rightarrow> jsval \<Rightarrow> props" where
  "mixin_data s m = entries_of s (member s m ''data'')"

definition mixin_methods :: "store \<Rightarrow> jsval \<Rightarrow> props" where
  "mixin_methods s m = entries_of s (member s m ''methods'')"

definition page_mixins :: "store \<Rightarrow> addr \<Rightarrow> jsval list" where
  "page_mixins s p =
     (case mixins_of s (member s (VRef p) ''mixins'') of Inr ms \<Rightarrow> ms | Inl e \<Rightarrow> [])"

definition page_data :: "store \<Rightarrow> addr \<Rightarrow> props" where
  "page_data s p =
     (case member s (VRef p) ''data'' of
        VRef d \<Rightarrow> (case cell_at s d of Some (Obj ps) \<Rightarrow> ps | _ \<Rightarrow> [])
      | _ \<Rightarrow> [])"

text \<open>A cell without properties: an empty object or an array.\<close>

definition propless :: "cell \<Rightarrow> bool" where
  "propless c = (case c of Obj ps \<Rightarrow> ps = [] | Arr vs \<Rightarrow> True)"

text \<open>
  What one step of the method merge leaves under a key of the page, from the collected
  methods \<open>mm\<close> and the page's properties \<open>pc\<close> before the step.
\<close>

definition merged_prop :: "store \<Rightarrow> props \<Rightarrow> props \<Rightarrow> string \<Rightarrow> jsval" where
  "merged_prop s mm pc key =
     (if key \<in> set PAGE_EVENT then
        (case get_prop mm key of
           VRef a \<Rightarrow> (case cell_at s a of Some (Arr vs) \<Rightarrow> VFun (Dispatcher a) | _ \<Rightarrow> get_prop pc key)
         | _ \<Rightarrow> get_prop pc key)
      else if nullish (get_prop pc key) then get_prop mm key else get_prop pc key)"

text \<open>
  A mixin contributes to a name in two ways: its \<open>methods\<close> define the name as a
  function (the collector skips \<open>onLoad\<close>), or the name is a lifecycle event other than
  \<open>onLoad\<close> and the mixin has a function under it among its own properties. \<open>hooks\<close>
  lists the functions the mixins have under a name among their own properties, in list
  order.
\<close>

definition defines_method :: "store \<Rightarrow> jsval \<Rightarrow> string \<Rightarrow> bool" where
  "defines_method s m k = (k \<noteq> ''onLoad'' \<and> isFunction (get_prop (mixin_methods s m) k))"

definition defines_hook :: "store \<Rightarrow> jsval \<Rightarrow> string \<Rightarrow> bool" where
  "defines_hook s m k = (k \<in> set PAGE_EVENT \<and> k \<noteq> ''onLoad'' \<and> isFunction (member s m k))"

definition hooks :: "store \<Rightarrow> jsval list \<Rightarrow> string \<Rightarrow> jsval list" where
  "hooks s ms k = filter isFunction (map (\<lambda>m. member s m k) ms)"

text \<open>
  The invariant of the collector's accumulator \<open>ret\<close>, for a collector started on a
  store of length \<open>n0\<close>: its keys are distinct and never \<open>onLoad\<close>; a value is a
  function, or a reference to an array that the collector has allocated itself and that
  no other key refers to.
\<close>

definition val_ok :: "nat \<Rightarrow> props \<Rightarrow> store \<Rightarrow> string \<Rightarrow> bool" where
  "val_ok n0 ret s k \<longleftrightarrow>
     isFunction (get_prop ret k) \<or> get_prop ret k = VUndefined \<or>
     (\<exists>a. get_prop ret k = VRef a \<and> n0 \<le> a \<and> isArray s (VRef a) \<and>
          (\<forall>k'. get_prop ret k' = VRef a \<longrightarrow> k' = k))"

definition ret_ok :: "nat \<Rightarrow> props \<Rightarrow> store \<Rightarrow> bool" where
  "ret_ok n0 ret s \<longleftrightarrow>
     distinct (object_keys ret) \<and> ''onLoad'' \<notin> set (object_keys ret) \<and>
     (\<forall>k. val_ok n0 ret s k)"

text \<open>
  The property of the page under a key once \<open>Object.assign\<close> has set the five slots of
  the entry point.
\<close>

definition assigned_prop :: "props \<Rightarrow> addr \<Rightarrow> string \<Rightarrow> jsval" where
  "assigned_prop pageConf nativeData k =
     (if k = ''data'' then VRef nativeData
      else if k = ''onLoad'' then VFun OnLoadFn
      else if k = ''onBeforeLoad'' then dflt (get_prop pageConf ''onBeforeLoad'') (VFun Noop)
      else if k = ''onAfterLoad'' then dflt (get_prop pageConf ''onAfterLoad'') (VFun Noop)
      else if k = ''onNativeLoad'' then
        (if truthy (get_prop pageConf ''onLoad'') then get_prop pageConf ''onLoad'' else VFun Noop)
      else get_prop pageConf k)"

text \<open>
  Inputs of the shape the interfaces declare: the page configuration is an object; its
  \<open>data\<close> is falsy or an object; its \<open>mixins\<close> are \<open>undefined\<close> or an array whose
  elements are neither \<open>null\<close> nor \<open>undefined\<close> and have, as \<open>data\<close> and as
  \<open>methods\<close>, \<open>undefined\<close>, an object, or a value without keys of its own.
\<close>

definition mapping_ok :: "store \<Rightarrow> jsval \<Rightarrow> bool" where
  "mapping_ok s v =
     (case v of
        VNull \<Rightarrow> False
      | VStr t \<Rightarrow> False
      | VRef a \<Rightarrow> (case cell_at s a of Some (Obj ps) \<Rightarrow> True | _ \<Rightarrow> False)
      | _ \<Rightarrow> True)"

definition mixin_ok :: "store \<Rightarrow> jsval \<Rightarrow> bool" where
  "mixin_ok s m =
     (\<not> nullish m \<and> mapping_ok s (member s m ''data'') \<and> mapping_ok s (member s m ''methods''))"

definition well_shaped :: "store \<Rightarrow> addr \<Rightarrow> bool" where
  "well_shaped s p =
     (case cell_at s p of
        Some (Obj pc) \<Rightarrow>
          (case get_prop pc ''data'' of
             VRef d \<Rightarrow> (case cell_at s d of Some (Obj ps) \<Rightarrow> True | _ \<Rightarrow> False)
           | v \<Rightarrow> \<not> truthy v)
          \<and> (case mixins_of s (get_prop pc ''mixins'') of
                Inr ms \<Rightarrow> list_all (mixin_ok s) ms
              | Inl e \<Rightarrow> False)
      | _ \<Rightarrow> False)"






section \<open>Concrete configurations\<close>

text \<open>A callable for concrete runs: it adds a constant to a numeric argument.\<close>

definition konst :: "int \<Rightarrow> callable" where
  "konst n = (\<lambda>args. returns (VNum (n + (case arg0 args of VNum k \<Rightarrow> k | _ \<Rightarrow> 0))))"

text \<open>
  The end-to-end scenario of the specification: page \<open>{data: {a: 1}, onShow: ps}\<close> with
  mixins \<open>[{data: {a: 2, b: 2}, onShow: m1}, {data: {b: 3, c: 3}, onShow: m2}]\<close>, where
  \<open>ps\<close>, \<open>m1\<close>, \<open>m2\<close> are the user functions 10, 1 and 2; and the store the merge
  leaves.
\<close>

definition ex_store :: store where
  "ex_store =
     [Obj [(''data'', VRef 1), (''onShow'', VFun (UserFn 10)), (''mixins'', VRef 2)],
      Obj [(''a'', VNum 1)],
      Arr [VRef 3, VRef 5],
      Obj [(''data'', VRef 4), (''onShow'', VFun (UserFn 1))],
      Obj [(''a'', VNum 2), (''b'', VNum 2)],
      Obj [(''data'', VRef 6), (''onShow'', VFun (UserFn 2))],
      Obj [(''b'', VNum 3), (''c'', VNum 3)]]"

definition ex_final :: store where
  "ex_final =
     [Obj [(''data'', VRef 1), (''onShow'', VFun (Dispatcher 8)), (''mixins'', VRef 2),
           (''onLoad'', VFun OnLoadFn), (''onBeforeLoad'', VFun Noop),
           (''onAfterLoad'', VFun Noop), (''onNativeLoad'', VFun Noop)],
      Obj [(''a'', VNum 1), (''b'', VNum 3), (''c'', VNum 3)],
      Arr [VRef 3, VRef 5],
      Obj [(''data'', VRef 4), (''onShow'', VFun (UserFn 1))],
      Obj [(''a'', VNum 2), (''b'', VNum 2)],
      Obj [(''data'', VRef 6), (''onShow'', VFun (UserFn 2))],
      Obj [(''b'', VNum 3), (''c'', VNum 3)],
      Arr [VFun (UserFn 1)],
      Arr [VFun (UserFn 1), VFun (UserFn 2), VFun (UserFn 10)]]"

text \<open>An environment for concrete runs: a user function adds a hundred times its identifier to a numeric argument.\<close>

definition ex_env :: env where
  "ex_env h this args = VNum (int h * 100 + (case arg0 args of VNum n \<Rightarrow> n | _ \<Rightarrow> 0))"



text \<open>Two mixins whose \<open>methods\<close> define \<open>onBeforeLoad\<close>; the page defines no hook.\<close>

definition exB :: store where
  "exB =
     [Obj [(''mixins'', VRef 1)],
      Arr [VRef 2, VRef 4],
      Obj [(''methods'', VRef 3)],
      Obj [(''onBeforeLoad'', VFun (UserFn 1))],
      Obj [(''methods'', VRef 5)],
      Obj [(''onBeforeLoad'', VFun (UserFn 2))]]"

definition exB_final :: store where
  "exB_final =
     [Obj [(''mixins'', VRef 1), (''data'', VRef 6), (''onLoad'', VFun OnLoadFn),
           (''onBeforeLoad'', VFun Noop), (''onAfterLoad'', VFun Noop),
           (''onNativeLoad'', VFun Noop)],
      Arr [VRef 2, VRef 4],
      Obj [(''methods'', VRef 3)],
      Obj [(''onBeforeLoad'', VFun (UserFn 1))],
      Obj [(''methods'', VRef 5)],
      Obj [(''onBeforeLoad'', VFun (UserFn 2))],
      Obj []]"

text \<open>A page that sets \<open>onBeforeLoad\<close> to \<open>null\<close>, and a mixin whose \<open>methods\<close> define it.\<close>

definition exC :: store where
  "exC =
     [Obj [(''onBeforeLoad'', VNull), (''mixins'', VRef 1)],
      Arr [VRef 2],
      Obj [(''methods'', VRef 3)],
      Obj [(''onBeforeLoad'', VFun (UserFn 1))]]"

definition exC_final :: store where
  "exC_final =
     [Obj [(''onBeforeLoad'', VFun (UserFn 1)), (''mixins'', VRef 1), (''data'', VRef 4),
           (''onLoad'', VFun OnLoadFn), (''onAfterLoad'', VFun Noop),
           (''onNativeLoad'', VFun Noop)],
      Arr [VRef 2],
      Obj [(''methods'', VRef 3)],
      Obj [(''onBeforeLoad'', VFun (UserFn 1))],
      Obj []]"

text \<open>A page with a handler for \<open>onShow\<close>, and a mixin that defines \<open>onShow\<close> in its \<open>methods\<close> only.\<close>

definition exE :: store where
  "exE =
     [Obj [(''onShow'', VFun (UserFn 10)), (''mixins'', VRef 1)],
      Arr [VRef 2],
      Obj [(''methods'', VRef 3)],
      Obj [(''onShow'', VFun (UserFn 1))]]"

definition exE_final :: store where
  "exE_final =
     [Obj [(''onShow'', VFun (UserFn 10)), (''mixins'', VRef 1), (''data'', VRef 4),
           (''onLoad'', VFun OnLoadFn), (''onBeforeLoad'', VFun Noop),
           (''onAfterLoad'', VFun Noop), (''onNativeLoad'', VFun Noop)],
      Arr [VRef 2],
      Obj [(''methods'', VRef 3)],
      Obj [(''onShow'', VFun (UserFn 1))],
      Obj []]"

text \<open>
  The end-to-end scenario after one invocation of the merged \<open>onShow\<close>: the handler list
  of the dispatcher is left reversed.
\<close>

definition ex_after1 :: store where
  "ex_after1 =
     [Obj [(''data'', VRef 1), (''onShow'', VFun (Dispatcher 8)), (''mixins'', VRef 2),
           (''onLoad'', VFun OnLoadFn), (''onBeforeLoad'', VFun Noop),
           (''onAfterLoad'', VFun Noop), (''onNativeLoad'', VFun Noop)],
      Obj [(''a'', VNum 1), (''b'', VNum 3), (''c'', VNum 3)],
      Arr [VRef 3, VRef 5],
      Obj [(''data'', VRef 4), (''onShow'', VFun (UserFn 1))],
      Obj [(''a'', VNum 2), (''b'', VNum 2)],
      Obj [(''data'', VRef 6), (''onShow'', VFun (UserFn 2))],
      Obj [(''b'', VNum 3), (''c'', VNum 3)],
      Arr [VFun (UserFn 1)],
      Arr [VFun (UserFn 10), VFun (UserFn 2), VFun (UserFn 1)]]"





text \<open>
  A page whose \<open>data\<close> is the very object that its first mixin has as \<open>data\<close>; the
  second mixin brings the key \<open>b\<close>.
\<close>

definition exG :: store where
  "exG =
     [Obj [(''data'', VRef 3), (''mixins'', VRef 1)],
      Arr [VRef 2, VRef 4],
      Obj [(''data'', VRef 3)],
      Obj [(''a'', VNum 1)],
      Obj [(''data'', VRef 5)],
      Obj [(''b'', VNum 2)]]"

definition exG_final :: store where
  "exG_final =
     [Obj [(''data'', VRef 3), (''mixins'', VRef 1), (''onLoad'', VFun OnLoadFn),
           (''onBeforeLoad'', VFun Noop), (''onAfterLoad'', VFun Noop),
           (''onNativeLoad'', VFun Noop)],
      Arr [VRef 2, VRef 4],
      Obj [(''data'', VRef 3)],
      Obj [(''a'', VNum 1), (''b'', VNum 2)],
      Obj [(''data'', VRef 5)],
      Obj [(''b'', VNum 2)]]"

section \<open>The function composer\<close>

lemma andThen_returns_left [simp]: "andThen (returns v) f = f v"
  by (simp add: andThen_def returns_def)

lemma andThen_returns_right [simp]: "andThen m returns = m"
  by (auto simp: andThen_def returns_def fun_eq_iff split: option.splits sum.splits prod.splits)

lemma andThen_assoc: "andThen (andThen m f) g = andThen m (\<lambda>v. andThen (f v) g)"
  by (auto simp: andThen_def fun_eq_iff split: option.splits sum.splits prod.splits)

lemma threaded_Nil: "threaded [] = returns"
  by (rule ext) simp

lemma threaded_single: "threaded [g] = (\<lambda>v. g [v])"
  by (rule ext) (simp add: threaded_Nil)

lemma threaded_append: "threaded (gs @ hs) v = andThen (threaded gs v) (threaded hs)"
proof (induction gs arbitrary: v)
  case Nil
  show ?case by simp
next
  case (Cons g gs)
  have "threaded (gs @ hs) = (\<lambda>w. andThen (threaded gs w) (threaded hs))"
    by (rule ext) (rule Cons.IH)
  then show ?case by (simp add: andThen_assoc)
qed

lemma reduceRight_threaded:
  "reduceRight (\<lambda>composed f. f [composed]) xs init = andThen init (threaded (rev xs))"
proof (induction xs)
  case Nil
  show ?case by (simp add: reduceRight_def threaded_Nil)
next
  case (Cons x xs)
  have step: "reduceRight (\<lambda>composed f. f [composed]) (x # xs) init
      = andThen (reduceRight (\<lambda>composed f. f [composed]) xs init) (\<lambda>c. x [c])"
    by (simp add: reduceRight_def)
  have app: "threaded (rev (x # xs)) = (\<lambda>v. andThen (threaded (rev xs) v) (\<lambda>c. x [c]))"
    by (rule ext) (simp add: threaded_append threaded_single)
  show ?case
    unfolding step Cons.IH app by (simp add: andThen_assoc)
qed

lemma compose_many:
  assumes "2 \<le> length funcs"
  shows "compose funcs args = andThen (last funcs args) (threaded (rev (butlast funcs)))"
proof -
  from assms have ne: "funcs \<noteq> []" by auto
  have "funcs ! (length funcs - 1) = last funcs"
    using ne by (simp add: last_conv_nth)
  with assms ne show ?thesis
    by (simp add: compose_def Let_def reduceRight_threaded)
qed

text \<open>
  Claim C7. The function composer returns the identity for an empty list and the element
  itself for a one-element list, without raising; for a list \<open>[f1, \<dots>, fN]\<close> with
  \<open>N \<ge> 2\<close> it returns a function that runs \<open>fN\<close> on the call arguments and then
  \<open>f(N-1)\<close>, \<dots>, \<open>f1\<close>, each on the value returned by the one before; the value of
  \<open>f1\<close> is the result.
\<close>

theorem compose_contract:
  "compose [] [x] = returns x
   \<and> compose [f] = f
   \<and> (2 \<le> length funcs \<longrightarrow>
        compose funcs args = andThen (last funcs args) (threaded (rev (butlast funcs))))
   \<and> compose [f1, f2, f3] args =
        andThen (f3 args) (\<lambda>v3. andThen (f2 [v3]) (\<lambda>v2. f1 [v2]))"
proof (intro conjI impI)
  show "compose [] [x] = returns x" by (simp add: compose_def arg0_def)
  show "compose [f] = f" by (simp add: compose_def)
  show "compose funcs args = andThen (last funcs args) (threaded (rev (butlast funcs)))"
    if "2 \<le> length funcs" using that by (rule compose_many)
  show "compose [f1, f2, f3] args = andThen (f3 args) (\<lambda>v3. andThen (f2 [v3]) (\<lambda>v2. f1 [v2]))"
  proof -
    have "threaded [f2, f1] = (\<lambda>v3. andThen (f2 [v3]) (\<lambda>v2. f1 [v2]))"
      by (rule ext) (simp add: threaded_single)
    then show ?thesis by (simp add: compose_many)
  qed
qed

theorem compose_contract_witness:
  "2 \<le> length [konst 1, konst 10] \<and>
   compose [konst 1, konst 10] [VNum 100] ([], []) = Some (Inr (VNum 111), ([], []))"
  using compose_contract [of VUndefined "konst 1" "[konst 1, konst 10]" "[VNum 100]"]
  by (simp add: konst_def arg0_def returns_def andThen_def)

section \<open>Facts about the merge\<close>

subsection \<open>Store and property lists\<close>

lemma cell_at_append_old [simp]: "a < length s \<Longrightarrow> cell_at (s @ ext) a = cell_at s a"
  by (simp add: cell_at_def nth_append)

lemma cell_at_Some_lt: "cell_at s a = Some c \<Longrightarrow> a < length s"
  by (simp add: cell_at_def split: if_splits)

lemma cell_at_None_iff: "cell_at s a = None \<longleftrightarrow> length s \<le> a"
  by (auto simp: cell_at_def)

lemma cell_at_update:
  "cell_at (s[a := c]) b = (if b = a \<and> a < length s then Some c else cell_at s b)"
  by (auto simp: cell_at_def)

lemma cell_at_ext_new:
  "length s \<le> a \<Longrightarrow> cell_at (s @ ext) a = Some c \<Longrightarrow> c \<in> set ext"
  by (auto simp: cell_at_def nth_append split: if_splits)

lemma get_prop_Nil [simp]: "get_prop [] k = VUndefined"
  by (simp add: get_prop_def)

lemma get_prop_set_prop [simp]:
  "get_prop (set_prop ps k v) k' = (if k' = k then v else get_prop ps k')"
  by (simp add: get_prop_def set_prop_def update_conv')

lemma keys_set_prop [simp]:
  "set (object_keys (set_prop ps k v)) = insert k (set (object_keys ps))"
  by (simp add: object_keys_def set_prop_def dom_update)

lemma object_keys_Nil [simp]: "object_keys [] = []"
  by (simp add: object_keys_def)

lemma object_keys_Cons [simp]: "object_keys (kv # ps) = fst kv # object_keys ps"
  by (simp add: object_keys_def)

lemma distinct_set_prop:
  "distinct (object_keys ps) \<Longrightarrow> distinct (object_keys (set_prop ps k v))"
  by (simp add: object_keys_def set_prop_def distinct_update)

lemma get_prop_absent: "k \<notin> set (object_keys ps) \<Longrightarrow> get_prop ps k = VUndefined"
proof -
  assume "k \<notin> set (object_keys ps)"
  then have "map_of ps k = None"
    by (simp add: object_keys_def map_of_eq_None_iff)
  then show ?thesis by (simp add: get_prop_def)
qed

lemma get_prop_present: "get_prop ps k \<noteq> VUndefined \<Longrightarrow> k \<in> set (object_keys ps)"
  using get_prop_absent by blast

lemma get_prop_entries [simp]: "get_prop (entries ps) k = get_prop ps k"
proof -
  have m: "map_of (map (\<lambda>key. (key, get_prop ps key)) ks) k
        = (if k \<in> set ks then Some (get_prop ps k) else None)" for ks
    by (induction ks) auto
  have "get_prop (entries ps) k
          = (if k \<in> set (object_keys ps) then get_prop ps k else VUndefined)"
    unfolding entries_def get_prop_def [of "map _ _"] m by simp
  then show ?thesis by (simp add: get_prop_absent)
qed

lemma keys_entries [simp]: "object_keys (entries ps) = object_keys ps"
  by (simp add: entries_def object_keys_def comp_def)

lemma entries_of_form: "\<exists>ps. entries_of s v = entries ps"
proof -
  have "[] = entries []" by (simp add: entries_def object_keys_def)
  then show ?thesis
    by (auto simp: entries_of_def own_entries_def split: jsval.splits option.splits cell.splits)
qed

lemma own_entries_Inr: "own_entries s v = Inr es \<Longrightarrow> es = entries_of s v"
  by (simp add: entries_of_def)

lemma member_ext:
  assumes "list_all propless ext"
  shows "member (s @ ext) v k = member s v k"
proof (cases v)
  case (VRef a)
  show ?thesis
  proof (cases "a < length s")
    case True
    then show ?thesis by (simp add: member_def VRef)
  next
    case False
    then have old: "cell_at s a = None" by (simp add: cell_at_def)
    show ?thesis
    proof (cases "cell_at (s @ ext) a")
      case None
      then show ?thesis by (simp add: member_def VRef old)
    next
      case (Some c)
      with False have "c \<in> set ext" by (auto intro: cell_at_ext_new [of s a ext c])
      with assms have "propless c" by (simp add: list_all_iff)
      then show ?thesis
        by (cases c) (simp_all add: member_def VRef old Some propless_def)
    qed
  qed
qed (simp_all add: member_def)

lemma entries_of_ext:
  assumes "list_all propless ext"
  shows "entries_of (s @ ext) v = entries_of s v"
proof (cases v)
  case (VRef a)
  show ?thesis
  proof (cases "a < length s")
    case True
    then show ?thesis by (simp add: entries_of_def own_entries_def VRef)
  next
    case False
    then have old: "cell_at s a = None" by (simp add: cell_at_def)
    show ?thesis
    proof (cases "cell_at (s @ ext) a")
      case None
      then show ?thesis by (simp add: entries_of_def own_entries_def VRef old)
    next
      case (Some c)
      with False have "c \<in> set ext" by (auto intro: cell_at_ext_new [of s a ext c])
      with assms have "propless c" by (simp add: list_all_iff)
      then show ?thesis
        by (cases c)
           (simp_all add: entries_of_def own_entries_def VRef old Some propless_def
                          entries_def object_keys_def)
    qed
  qed
qed (simp_all add: entries_of_def own_entries_def)


lemma mixin_methods_ext:
  "list_all propless ext \<Longrightarrow> mixin_methods (s @ ext) m = mixin_methods s m"
  by (simp add: mixin_methods_def member_ext entries_of_ext)

lemma length_set_member [simp]: "length (set_member s a k v) = length s"
  by (simp add: set_member_def split: option.splits cell.splits)

lemma cell_at_set_member_other: "b \<noteq> a \<Longrightarrow> cell_at (set_member s a k v) b = cell_at s b"
  by (simp add: set_member_def cell_at_update split: option.splits cell.splits)

lemma cell_at_set_member_same:
  "cell_at s a = Some (Obj ps) \<Longrightarrow> cell_at (set_member s a k v) a = Some (Obj (set_prop ps k v))"
  by (simp add: set_member_def cell_at_update cell_at_Some_lt)

subsection \<open>Loops over a key list\<close>

lemma forEachE_append:
  "forEachE f (xs @ ys) acc =
     (case forEachE f xs acc of Inl e \<Rightarrow> Inl e | Inr acc' \<Rightarrow> forEachE f ys acc')"
  by (induction xs arbitrary: acc) (auto split: sum.splits)



subsection \<open>Collecting the data of the mixins\<close>








subsection \<open>Merging the data into the page's mapping\<close>

lemma member_obj: "cell_at s a = Some (Obj ps) \<Longrightarrow> member s (VRef a) k = get_prop ps k"
  by (simp add: member_def)

lemma mixData_fold_cell:
  assumes "cell_at s d = Some (Obj ps)"
  shows "\<exists>ps'. cell_at (fold (\<lambda>key s. if member s (VRef d) key \<noteq> VUndefined then s
                                       else set_member s d key (get_prop md key)) ks s) d
                 = Some (Obj ps')
           \<and> (\<forall>k. get_prop ps' k =
                  (if get_prop ps k \<noteq> VUndefined then get_prop ps k
                   else if k \<in> set ks then get_prop md k else VUndefined))
           \<and> set (object_keys ps') = set (object_keys ps) \<union> set ks"
  using assms
proof (induction ks arbitrary: s ps)
  case Nil
  then show ?case by auto
next
  case (Cons k0 ks)
  show ?case
  proof (cases "get_prop ps k0 \<noteq> VUndefined")
    case True
    then have "k0 \<in> set (object_keys ps)" by (rule get_prop_present)
    with True Cons.IH [OF Cons.prems] Cons.prems show ?thesis
      by (auto simp: member_obj)
  next
    case False
    let ?s1 = "set_member s d k0 (get_prop md k0)"
    have c1: "cell_at ?s1 d = Some (Obj (set_prop ps k0 (get_prop md k0)))"
      using Cons.prems by (rule cell_at_set_member_same)
    from Cons.IH [OF c1] obtain ps' where
      a: "cell_at (fold (\<lambda>key s. if member s (VRef d) key \<noteq> VUndefined then s
                                  else set_member s d key (get_prop md key)) ks ?s1) d
            = Some (Obj ps')"
      and b: "\<And>k. get_prop ps' k =
                  (if get_prop (set_prop ps k0 (get_prop md k0)) k \<noteq> VUndefined
                   then get_prop (set_prop ps k0 (get_prop md k0)) k
                   else if k \<in> set ks then get_prop md k else VUndefined)"
      and c: "set (object_keys ps') = set (object_keys (set_prop ps k0 (get_prop md k0))) \<union> set ks"
      by blast
    have "\<forall>k. get_prop ps' k =
                  (if get_prop ps k \<noteq> VUndefined then get_prop ps k
                   else if k \<in> set (k0 # ks) then get_prop md k else VUndefined)"
      using False by (auto simp: b)
    moreover have "set (object_keys ps') = set (object_keys ps) \<union> set (k0 # ks)"
      using c by auto
    ultimately show ?thesis
      using a False Cons.prems by (simp add: member_obj)
  qed
qed

lemma mixData_cell:
  assumes "cell_at s d = Some (Obj ps)"
  shows "\<exists>ps'. cell_at (mixData md d s) d = Some (Obj ps')
           \<and> (\<forall>k. get_prop ps' k =
                  (if get_prop ps k \<noteq> VUndefined then get_prop ps k
                   else if k \<in> set (object_keys md) then get_prop md k else VUndefined))
           \<and> set (object_keys ps') = set (object_keys ps) \<union> set (object_keys md)"
  unfolding mixData_def using mixData_fold_cell [OF assms] .

lemma mixData_other: "b \<noteq> d \<Longrightarrow> cell_at (mixData md d s) b = cell_at s b"
proof -
  assume bd: "b \<noteq> d"
  have "cell_at (fold (\<lambda>key s. if member s (VRef d) key \<noteq> VUndefined then s
                              else set_member s d key (get_prop md key)) ks s) b = cell_at s b" for ks
    by (induction ks arbitrary: s) (simp_all add: cell_at_set_member_other bd)
  then show ?thesis by (simp add: mixData_def)
qed

lemma length_mixData [simp]: "length (mixData md d s) = length s"
proof -
  have "length (fold (\<lambda>key s. if member s (VRef d) key \<noteq> VUndefined then s
                              else set_member s d key (get_prop md key)) ks s) = length s" for ks
    by (induction ks arbitrary: s) simp_all
  then show ?thesis by (simp add: mixData_def)
qed

subsection \<open>Object.assign\<close>

lemma assign_other: "b \<noteq> a \<Longrightarrow> cell_at (assign s a src) b = cell_at s b"
  unfolding assign_def
  by (induction src arbitrary: s) (auto simp: cell_at_set_member_other)

lemma length_assign [simp]: "length (assign s a src) = length s"
  unfolding assign_def by (induction src arbitrary: s) auto

lemma assign_same:
  "cell_at s a = Some (Obj ps) \<Longrightarrow>
   cell_at (assign s a src) a = Some (Obj (fold (\<lambda>(key, v) r. set_prop r key v) src ps))"
  unfolding assign_def
  by (induction src arbitrary: s ps) (auto simp: cell_at_set_member_same)

subsection \<open>Merging the methods into the page\<close>

lemma isArray_update_Arr:
  "cell_at s a = Some (Arr vs) \<Longrightarrow> isArray (s[a := Arr ws]) v = isArray s v"
  by (auto simp: isArray_def cell_at_update split: jsval.splits option.splits cell.splits
           dest: cell_at_Some_lt)

lemma isArray_set_member: "isArray (set_member s a k x) v = isArray s v"
  by (auto simp: isArray_def set_member_def cell_at_update
           split: jsval.splits option.splits cell.splits)

lemma isArray_mixMethods_step: "isArray (mixMethods_step mm p key s) v = isArray s v"
  by (auto simp: mixMethods_step_def Let_def isArray_set_member isArray_update_Arr
           split: jsval.splits option.splits cell.splits)

lemma length_mixMethods_step [simp]: "length (mixMethods_step mm p key s) = length s"
  by (auto simp: mixMethods_step_def Let_def split: jsval.splits option.splits cell.splits)

lemma merged_prop_cong:
  assumes "\<And>v. isArray s1 v = isArray s v" and "get_prop pc1 key = get_prop pc key"
  shows "merged_prop s1 mm pc1 key = merged_prop s mm pc key"
proof (cases "get_prop mm key")
  case (VRef a)
  have "isArray s1 (VRef a) = isArray s (VRef a)" by (rule assms(1))
  then show ?thesis
    using assms(2) VRef
    by (auto simp: merged_prop_def isArray_def split: option.splits cell.splits)
qed (simp_all add: merged_prop_def assms(2))

lemma mixMethods_step_page:
  assumes "cell_at s p = Some (Obj pc)"
  shows "\<exists>pc'. cell_at (mixMethods_step mm p key s) p = Some (Obj pc')
           \<and> (\<forall>k. get_prop pc' k = (if k = key then merged_prop s mm pc key else get_prop pc k))"
proof (cases "key \<in> set PAGE_EVENT")
  case False
  show ?thesis
  proof (cases "nullish (get_prop pc key)")
    case True
    with False assms have
      "mixMethods_step mm p key s = set_member s p key (get_prop mm key)"
      by (simp add: mixMethods_step_def member_obj)
    with cell_at_set_member_same [OF assms] False True show ?thesis
      by (auto simp: merged_prop_def)
  next
    case nn: False
    with False assms have "mixMethods_step mm p key s = s"
      by (simp add: mixMethods_step_def member_obj)
    with assms False nn show ?thesis by (auto simp: merged_prop_def)
  qed
next
  case True
  show ?thesis
  proof (cases "\<exists>a vs. get_prop mm key = VRef a \<and> cell_at s a = Some (Arr vs)")
    case False
    then have "mixMethods_step mm p key s = s"
      using True
      by (auto simp: mixMethods_step_def split: jsval.splits option.splits cell.splits)
    moreover have "merged_prop s mm pc key = get_prop pc key"
      using True False
      by (auto simp: merged_prop_def split: jsval.splits option.splits cell.splits)
    ultimately show ?thesis using assms by auto
  next
    case ex: True
    then obtain a vs where a: "get_prop mm key = VRef a" "cell_at s a = Some (Arr vs)"
      by blast
    from a(2) assms have ap: "a \<noteq> p" by auto
    define s1 where "s1 = (if isFunction (get_prop pc key)
                           then s[a := Arr (vs @ [get_prop pc key])] else s)"
    have step: "mixMethods_step mm p key s = set_member s1 p key (VFun (Dispatcher a))"
      using True a assms by (simp add: mixMethods_step_def s1_def member_obj Let_def)
    have "cell_at s1 p = Some (Obj pc)"
      using assms ap by (simp add: s1_def cell_at_update)
    from cell_at_set_member_same [OF this]
    have "cell_at (mixMethods_step mm p key s) p
            = Some (Obj (set_prop pc key (VFun (Dispatcher a))))"
      by (simp add: step)
    moreover have "merged_prop s mm pc key = VFun (Dispatcher a)"
      using True a by (simp add: merged_prop_def)
    ultimately show ?thesis by auto
  qed
qed

lemma mixMethods_fold_page:
  assumes "cell_at s p = Some (Obj pc)" and "distinct ks"
  shows "\<exists>pc'. cell_at (fold (mixMethods_step mm p) ks s) p = Some (Obj pc')
           \<and> (\<forall>k. get_prop pc' k = (if k \<in> set ks then merged_prop s mm pc k else get_prop pc k))"
  using assms
proof (induction ks arbitrary: s pc)
  case Nil
  then show ?case by simp
next
  case (Cons k0 ks)
  from mixMethods_step_page [OF Cons.prems(1), of mm k0] obtain pc1 where
    c1: "cell_at (mixMethods_step mm p k0 s) p = Some (Obj pc1)"
    and g1: "\<And>k. get_prop pc1 k = (if k = k0 then merged_prop s mm pc k0 else get_prop pc k)"
    by blast
  from Cons.prems(2) have d: "distinct ks" and nk: "k0 \<notin> set ks" by auto
  from Cons.IH [OF c1 d] obtain pc' where
    c': "cell_at (fold (mixMethods_step mm p) ks (mixMethods_step mm p k0 s)) p = Some (Obj pc')"
    and g': "\<And>k. get_prop pc' k =
               (if k \<in> set ks then merged_prop (mixMethods_step mm p k0 s) mm pc1 k
                else get_prop pc1 k)"
    by blast
  have "get_prop pc' k = (if k \<in> set (k0 # ks) then merged_prop s mm pc k else get_prop pc k)"
    for k
  proof (cases "k \<in> set ks")
    case True
    with nk have "k \<noteq> k0" by auto
    then have "merged_prop (mixMethods_step mm p k0 s) mm pc1 k = merged_prop s mm pc k"
      by (intro merged_prop_cong) (simp_all add: isArray_mixMethods_step g1)
    with True show ?thesis by (simp add: g')
  next
    case False
    then show ?thesis by (simp add: g' g1)
  qed
  with c' show ?case by auto
qed

lemma mixMethods_page:
  assumes "cell_at s p = Some (Obj pc)" and "distinct (object_keys mm)"
  shows "member (mixMethods mm p s) (VRef p) k =
           (if k \<in> set (object_keys mm) then merged_prop s mm pc k else get_prop pc k)"
  using mixMethods_fold_page [OF assms, of mm]
  by (auto simp: mixMethods_def member_obj)

lemma mixMethods_step_obj:
  assumes "b \<noteq> p" and "cell_at s b = Some (Obj ps)"
  shows "cell_at (mixMethods_step mm p key s) b = Some (Obj ps)"
proof -
  have upd: "cell_at (s[a := Arr ws]) b = Some (Obj ps)" if "cell_at s a = Some (Arr vs)" for a vs ws
    using that assms(2) by (auto simp: cell_at_update)
  show ?thesis
    using assms
    by (auto simp: mixMethods_step_def Let_def cell_at_set_member_other upd
             split: jsval.splits option.splits cell.splits)
qed

lemma mixMethods_obj:
  assumes "b \<noteq> p" and "cell_at s b = Some (Obj ps)"
  shows "cell_at (mixMethods mm p s) b = Some (Obj ps)"
proof -
  have "cell_at (fold (mixMethods_step mm p) ks s) b = Some (Obj ps)"
    if "cell_at s b = Some (Obj ps)" for ks s
    using that by (induction ks arbitrary: s) (simp_all add: mixMethods_step_obj [OF assms(1)])
  with assms(2) show ?thesis by (simp add: mixMethods_def)
qed

lemma length_mixMethods [simp]: "length (mixMethods mm p s) = length s"
proof -
  have "length (fold (mixMethods_step mm p) ks s) = length s" for ks
    by (induction ks arbitrary: s) simp_all
  then show ?thesis by (simp add: mixMethods_def)
qed

subsection \<open>Collecting the methods of the mixins\<close>

lemma isArray_lt: "isArray s (VRef a) \<Longrightarrow> a < length s"
  by (auto simp: isArray_def split: option.splits dest: cell_at_Some_lt)

lemma isArray_append: "isArray s v \<Longrightarrow> isArray (s @ ext) v"
proof (cases v)
  case (VRef a)
  assume "isArray s v"
  with VRef obtain vs where c: "cell_at s a = Some (Arr vs)"
    by (auto simp: isArray_def split: option.splits cell.splits)
  then have "a < length s" by (rule cell_at_Some_lt)
  with c VRef show ?thesis by (simp add: isArray_def)
qed (simp_all add: isArray_def)


lemma not_truthy_elems: "\<not> truthy v \<Longrightarrow> elems s v = []"
  by (cases v) (simp_all add: truthy_def elems_def)


lemma not_isArray_elems: "\<not> isArray s v \<Longrightarrow> elems s v = []"
  by (auto simp: isArray_def elems_def split: jsval.splits option.splits cell.splits)

lemma methods_pass_entries_get:
  "get_prop (methods_pass (entries ps) ret) k =
     (if k \<noteq> ''onLoad'' \<and> isFunction (get_prop ps k) then get_prop ps k else get_prop ret k)"
proof -
  have "get_prop (fold (\<lambda>(key, method) r.
             if \<not> isFunction method then r
             else if key = ''onLoad'' then r
             else set_prop r key method) (map (\<lambda>key. (key, get_prop ps key)) ks) ret) k
          = (if k \<in> set ks \<and> k \<noteq> ''onLoad'' \<and> isFunction (get_prop ps k)
             then get_prop ps k else get_prop ret k)" for ks
    by (induction ks arbitrary: ret) auto
  from this [of "object_keys ps"] have
    "get_prop (methods_pass (entries ps) ret) k =
       (if k \<in> set (object_keys ps) \<and> k \<noteq> ''onLoad'' \<and> isFunction (get_prop ps k)
        then get_prop ps k else get_prop ret k)"
    by (simp add: methods_pass_def entries_def)
  moreover have "k \<in> set (object_keys ps)" if "isFunction (get_prop ps k)"
    using that by (intro get_prop_present) (auto simp: isFunction_def)
  ultimately show ?thesis by auto
qed

lemma methods_pass_keys:
  assumes "distinct (object_keys ret)" and "''onLoad'' \<notin> set (object_keys ret)"
  shows "distinct (object_keys (methods_pass es ret))
         \<and> ''onLoad'' \<notin> set (object_keys (methods_pass es ret))"
proof -
  define f :: "string \<times> jsval \<Rightarrow> props \<Rightarrow> props" where
    "f = (\<lambda>(key, method) r.
             if \<not> isFunction method then r
             else if key = ''onLoad'' then r
             else set_prop r key method)"
  have step: "distinct (object_keys (f e r)) \<and> ''onLoad'' \<notin> set (object_keys (f e r))"
    if "distinct (object_keys r) \<and> ''onLoad'' \<notin> set (object_keys r)" for e r
  proof (cases e)
    case (Pair key mth)
    show ?thesis
    proof (cases "isFunction mth \<and> key \<noteq> ''onLoad''")
      case True
      then have "f e r = set_prop r key mth" by (simp add: f_def Pair)
      moreover from True have "''onLoad'' \<noteq> key" by blast
      ultimately show ?thesis using that by (simp add: distinct_set_prop)
    next
      case False
      then have "f e r = r" by (auto simp: f_def Pair)
      with that show ?thesis by simp
    qed
  qed
  have "distinct (object_keys (fold f es r)) \<and> ''onLoad'' \<notin> set (object_keys (fold f es r))"
    if "distinct (object_keys r) \<and> ''onLoad'' \<notin> set (object_keys r)" for r
    using that
  proof (induction es arbitrary: r)
    case Nil
    then show ?case by simp
  next
    case (Cons e es)
    from Cons.IH [OF step [OF Cons.prems]] show ?case by simp
  qed
  with assms show ?thesis by (simp add: methods_pass_def f_def)
qed

lemma val_ok_cases [consumes 1, case_names fn undef ref]:
  assumes "val_ok n0 ret s k"
  obtains "isFunction (get_prop ret k)"
  | "get_prop ret k = VUndefined"
  | a where "get_prop ret k = VRef a" "n0 \<le> a" "isArray s (VRef a)"
      "\<And>k'. get_prop ret k' = VRef a \<Longrightarrow> k' = k"
  using assms unfolding val_ok_def by blast

lemma val_ok_fn: "isFunction (get_prop ret k) \<Longrightarrow> val_ok n0 ret s k"
  by (simp add: val_ok_def)

lemma val_ok_undef: "get_prop ret k = VUndefined \<Longrightarrow> val_ok n0 ret s k"
  by (simp add: val_ok_def)

lemma val_ok_ref:
  "get_prop ret k = VRef a \<Longrightarrow> n0 \<le> a \<Longrightarrow> isArray s (VRef a) \<Longrightarrow>
   (\<And>k'. get_prop ret k' = VRef a \<Longrightarrow> k' = k) \<Longrightarrow> val_ok n0 ret s k"
  unfolding val_ok_def by blast

lemma ret_okD:
  assumes "ret_ok n0 ret s"
  shows "distinct (object_keys ret)" and "''onLoad'' \<notin> set (object_keys ret)"
    and "val_ok n0 ret s k"
  using assms unfolding ret_ok_def by blast+

lemma ret_okI:
  "distinct (object_keys ret) \<Longrightarrow> ''onLoad'' \<notin> set (object_keys ret) \<Longrightarrow>
   (\<And>k. val_ok n0 ret s k) \<Longrightarrow> ret_ok n0 ret s"
  unfolding ret_ok_def by blast

lemma not_fn_ref: "\<not> isFunction (VRef a)"
  by (simp add: isFunction_def)

lemma ret_ok_change:
  assumes ok: "ret_ok n0 ret s"
    and keys: "distinct (object_keys ret')" "''onLoad'' \<notin> set (object_keys ret')"
    and vals: "\<And>k. get_prop ret' k = get_prop ret k \<or> isFunction (get_prop ret' k)"
  shows "ret_ok n0 ret' s"
proof (rule ret_okI [OF keys])
  fix k
  show "val_ok n0 ret' s k"
  proof (cases "isFunction (get_prop ret' k)")
    case True
    then show ?thesis by (rule val_ok_fn)
  next
    case False
    with vals [of k] have same: "get_prop ret' k = get_prop ret k" by simp
    from ret_okD(3) [OF ok, of k] show ?thesis
    proof (cases rule: val_ok_cases)
      case fn
      with same show ?thesis by (simp add: val_ok_fn)
    next
      case undef
      with same show ?thesis by (simp add: val_ok_undef)
    next
      case (ref a)
      have inj: "k' = k" if "get_prop ret' k' = VRef a" for k'
      proof -
        from vals [of k'] that have "get_prop ret k' = VRef a"
          by (auto simp: not_fn_ref)
        then show ?thesis by (rule ref(4))
      qed
      from same ref(1) have "get_prop ret' k = VRef a" by simp
      then show ?thesis using ref(2,3) inj by (rule val_ok_ref)
    qed
  qed
qed

lemma ret_ok_methods_pass:
  assumes "ret_ok n0 ret s"
  shows "ret_ok n0 (methods_pass (entries ps) ret) s"
proof (rule ret_ok_change [OF assms])
  from methods_pass_keys [OF ret_okD(1,2) [OF assms]]
  show "distinct (object_keys (methods_pass (entries ps) ret))"
    and "''onLoad'' \<notin> set (object_keys (methods_pass (entries ps) ret))"
    by blast+
  show "get_prop (methods_pass (entries ps) ret) k = get_prop ret k
        \<or> isFunction (get_prop (methods_pass (entries ps) ret) k)" for k
    by (simp add: methods_pass_entries_get)
qed

lemma ret_ok_append:
  assumes "ret_ok n0 ret s"
  shows "ret_ok n0 ret (s @ ext)"
proof (rule ret_okI [OF ret_okD(1,2) [OF assms]])
  fix k
  from ret_okD(3) [OF assms, of k] show "val_ok n0 ret (s @ ext) k"
  proof (cases rule: val_ok_cases)
    case (ref a)
    from ref(3) have "isArray (s @ ext) (VRef a)" by (rule isArray_append)
    with ref(1,2) show ?thesis using ref(4) by (rule val_ok_ref)
  qed (simp_all add: val_ok_fn val_ok_undef)
qed

lemma lifecycle_step_eq:
  "lifecycle_step m key (ret, s) =
     (if isFunction (member s m key) \<and> key \<noteq> ''onLoad''
      then (set_prop ret key (VRef (length s)),
            s @ [Arr (elems s (get_prop ret key) @ [member s m key])])
      else (ret, s))"
  by (auto simp: lifecycle_step_def alloc_def Let_def not_isArray_elems not_truthy_elems)

lemma isArray_new: "isArray (s @ [Arr vs]) (VRef (length s))"
  by (simp add: isArray_def cell_at_def)

lemma ret_ok_fresh:
  assumes "ret_ok n0 ret s"
  shows "get_prop ret k \<noteq> VRef (length s)"
proof
  assume e: "get_prop ret k = VRef (length s)"
  from ret_okD(3) [OF assms, of k] have "isArray s (VRef (length s))"
    by (cases rule: val_ok_cases) (simp_all add: e not_fn_ref)
  then show False by (auto dest: isArray_lt)
qed

lemma ret_ok_set_new:
  assumes ok: "ret_ok n0 ret s" and n0: "n0 \<le> length s" and key: "key \<noteq> ''onLoad''"
  shows "ret_ok n0 (set_prop ret key (VRef (length s))) (s @ [Arr vs])"
proof (rule ret_okI)
  show "distinct (object_keys (set_prop ret key (VRef (length s))))"
    using ret_okD(1) [OF ok] by (rule distinct_set_prop)
  from key have "''onLoad'' \<noteq> key" by blast
  then show "''onLoad'' \<notin> set (object_keys (set_prop ret key (VRef (length s))))"
    using ret_okD(2) [OF ok] by simp
  fix k
  show "val_ok n0 (set_prop ret key (VRef (length s))) (s @ [Arr vs]) k"
  proof (cases "k = key")
    case True
    have inj: "k' = k" if "get_prop (set_prop ret key (VRef (length s))) k' = VRef (length s)" for k'
      using that ret_ok_fresh [OF ok, of k'] True by (simp split: if_splits)
    have "get_prop (set_prop ret key (VRef (length s))) k = VRef (length s)"
      using True by simp
    then show ?thesis using n0 isArray_new inj by (rule val_ok_ref)
  next
    case False
    from ret_okD(3) [OF ok, of k] show ?thesis
    proof (cases rule: val_ok_cases)
      case fn
      with False show ?thesis by (simp add: val_ok_fn)
    next
      case undef
      with False show ?thesis by (simp add: val_ok_undef)
    next
      case (ref a)
      from ref(3) have ne: "a \<noteq> length s" by (auto dest: isArray_lt)
      have inj: "k' = k" if "get_prop (set_prop ret key (VRef (length s))) k' = VRef a" for k'
        using that ne ref(4) [of k'] by (simp split: if_splits)
      have "get_prop (set_prop ret key (VRef (length s))) k = VRef a"
        using ref(1) False by simp
      moreover have "isArray (s @ [Arr vs]) (VRef a)"
        using ref(3) by (rule isArray_append)
      ultimately show ?thesis using ref(2) inj by (intro val_ok_ref [where a = a])
    qed
  qed
qed

lemma ret_ok_lifecycle_step:
  assumes ok: "ret_ok n0 ret s" and n0: "n0 \<le> length s"
  shows "ret_ok n0 (fst (lifecycle_step m key (ret, s))) (snd (lifecycle_step m key (ret, s)))"
  using ok ret_ok_set_new [OF ok n0]
  by (simp add: lifecycle_step_eq)

lemma propless_Arr [simp]: "propless (Arr vs)"
  by (simp add: propless_def)

lemma lifecycle_step_ext:
  "\<exists>ext. snd (lifecycle_step m key rs) = snd rs @ ext \<and> list_all propless ext"
proof (cases rs)
  case (Pair ret s)
  show ?thesis
  proof (cases "isFunction (member s m key) \<and> key \<noteq> ''onLoad''")
    case True
    then have "snd (lifecycle_step m key rs)
                 = snd rs @ [Arr (elems s (get_prop ret key) @ [member s m key])]"
      by (simp add: Pair lifecycle_step_eq)
    then show ?thesis by (intro exI [of _ "[Arr (elems s (get_prop ret key) @ [member s m key])]"]) simp
  next
    case False
    then have "snd (lifecycle_step m key rs) = snd rs @ []"
      by (auto simp: Pair lifecycle_step_eq)
    then show ?thesis by (intro exI [of _ "[]"]) simp
  qed
qed

lemma fold_lifecycle_ext:
  "\<exists>ext. snd (fold (lifecycle_step m) ks rs) = snd rs @ ext \<and> list_all propless ext"
proof (induction ks arbitrary: rs)
  case Nil
  show ?case by (intro exI [of _ "[]"]) simp
next
  case (Cons k ks)
  from lifecycle_step_ext [of m k rs] obtain e1 where
    e1: "snd (lifecycle_step m k rs) = snd rs @ e1" "list_all propless e1" by blast
  from Cons.IH [of "lifecycle_step m k rs"] obtain e2 where
    e2: "snd (fold (lifecycle_step m) ks (lifecycle_step m k rs))
           = snd (lifecycle_step m k rs) @ e2" "list_all propless e2" by blast
  show ?case
    by (intro exI [of _ "e1 @ e2"]) (simp add: e1 e2)
qed

lemma fold_lifecycle_ok:
  assumes "ret_ok n0 (fst rs) (snd rs)" and "n0 \<le> length (snd rs)"
  shows "ret_ok n0 (fst (fold (lifecycle_step m) ks rs)) (snd (fold (lifecycle_step m) ks rs))"
  using assms
proof (induction ks arbitrary: rs)
  case Nil
  then show ?case by simp
next
  case (Cons k ks)
  obtain ret s where rs: "rs = (ret, s)" by (cases rs)
  from Cons.prems have ok1:
    "ret_ok n0 (fst (lifecycle_step m k rs)) (snd (lifecycle_step m k rs))"
    unfolding rs by (simp add: ret_ok_lifecycle_step)
  from lifecycle_step_ext [of m k rs] Cons.prems(2)
  have "n0 \<le> length (snd (lifecycle_step m k rs))" by auto
  from Cons.IH [OF ok1 this] show ?case by simp
qed

lemma lifecycle_step_other:
  assumes "k \<noteq> key \<or> \<not> (isFunction (member (snd rs) m k) \<and> k \<noteq> ''onLoad'')"
  shows "get_prop (fst (lifecycle_step m key rs)) k = get_prop (fst rs) k"
  using assms by (cases rs) (auto simp: lifecycle_step_eq)

lemma fold_lifecycle_other:
  assumes "\<not> (k \<in> set ks \<and> isFunction (member (snd rs) m k) \<and> k \<noteq> ''onLoad'')"
  shows "get_prop (fst (fold (lifecycle_step m) ks rs)) k = get_prop (fst rs) k"
  using assms
proof (induction ks arbitrary: rs)
  case Nil
  then show ?case by simp
next
  case (Cons k0 ks)
  from lifecycle_step_ext [of m k0 rs] obtain e1 where
    e1: "snd (lifecycle_step m k0 rs) = snd rs @ e1" "list_all propless e1" by blast
  have m1: "member (snd (lifecycle_step m k0 rs)) m k = member (snd rs) m k"
    by (simp add: e1 member_ext)
  have "get_prop (fst (fold (lifecycle_step m) ks (lifecycle_step m k0 rs))) k
          = get_prop (fst (lifecycle_step m k0 rs)) k"
    using Cons.prems by (intro Cons.IH) (auto simp: m1)
  also have "\<dots> = get_prop (fst rs) k"
    using Cons.prems by (intro lifecycle_step_other) auto
  finally show ?case by simp
qed




lemma defines_method_ext:
  "list_all propless ext \<Longrightarrow> defines_method (s @ ext) m k = defines_method s m k"
  by (simp add: defines_method_def mixin_methods_ext)

lemma defines_hook_ext:
  "list_all propless ext \<Longrightarrow> defines_hook (s @ ext) m k = defines_hook s m k"
  by (simp add: defines_hook_def member_ext)


lemma getMixinMethods_step_Inr:
  assumes "getMixinMethods_step m rs = Inr rs'"
  shows "rs' = fold (lifecycle_step m) PAGE_EVENT
                 (methods_pass (mixin_methods (snd rs) m) (fst rs), snd rs)"
  using assms
  by (auto simp: getMixinMethods_step_def mixin_methods_def split: if_splits sum.splits
           dest: own_entries_Inr)

lemma step_ext:
  assumes "getMixinMethods_step m rs = Inr rs'"
  shows "\<exists>ext. snd rs' = snd rs @ ext \<and> list_all propless ext"
  unfolding getMixinMethods_step_Inr [OF assms]
  using fold_lifecycle_ext [of m PAGE_EVENT "(methods_pass (mixin_methods (snd rs) m) (fst rs), snd rs)"]
  by simp

lemma step_ok:
  assumes "getMixinMethods_step m rs = Inr rs'"
    and "ret_ok n0 (fst rs) (snd rs)" and "n0 \<le> length (snd rs)"
  shows "ret_ok n0 (fst rs') (snd rs')"
proof -
  obtain ps where ps: "mixin_methods (snd rs) m = entries ps"
    unfolding mixin_methods_def using entries_of_form by blast
  have "ret_ok n0 (methods_pass (mixin_methods (snd rs) m) (fst rs)) (snd rs)"
    unfolding ps using assms(2) by (rule ret_ok_methods_pass)
  then show ?thesis
    unfolding getMixinMethods_step_Inr [OF assms(1)]
    using assms(3) by (intro fold_lifecycle_ok) simp_all
qed

lemma methods_pass_get:
  "get_prop (methods_pass (mixin_methods s m) ret) k =
     (if defines_method s m k then get_prop (mixin_methods s m) k else get_prop ret k)"
proof -
  obtain ps where ps: "mixin_methods s m = entries ps"
    unfolding mixin_methods_def using entries_of_form by blast
  show ?thesis
    unfolding defines_method_def ps by (simp add: methods_pass_entries_get)
qed

lemma step_nohook:
  assumes "getMixinMethods_step m rs = Inr rs'" and "\<not> defines_hook (snd rs) m k"
  shows "get_prop (fst rs') k =
           (if defines_method (snd rs) m k then get_prop (mixin_methods (snd rs) m) k
            else get_prop (fst rs) k)"
proof -
  have "get_prop (fst rs') k
          = get_prop (methods_pass (mixin_methods (snd rs) m) (fst rs)) k"
    unfolding getMixinMethods_step_Inr [OF assms(1)]
    using assms(2) by (subst fold_lifecycle_other) (auto simp: defines_hook_def)
  then show ?thesis by (simp add: methods_pass_get)
qed


subsection \<open>The whole list of mixins\<close>

lemma list_ext:
  "forEachE getMixinMethods_step ms rs = Inr rs' \<Longrightarrow>
   \<exists>ext. snd rs' = snd rs @ ext \<and> list_all propless ext"
proof (induction ms arbitrary: rs)
  case Nil
  then show ?case by (intro exI [of _ "[]"]) simp
next
  case (Cons m ms)
  then obtain r1 where r1: "getMixinMethods_step m rs = Inr r1"
    and rest: "forEachE getMixinMethods_step ms r1 = Inr rs'"
    by (auto split: sum.splits)
  from step_ext [OF r1] obtain e1 where e1: "snd r1 = snd rs @ e1" "list_all propless e1"
    by blast
  from Cons.IH [OF rest] obtain e2 where e2: "snd rs' = snd r1 @ e2" "list_all propless e2"
    by blast
  show ?case by (intro exI [of _ "e1 @ e2"]) (simp add: e1 e2)
qed

lemma list_ok:
  "forEachE getMixinMethods_step ms rs = Inr rs' \<Longrightarrow>
   ret_ok n0 (fst rs) (snd rs) \<Longrightarrow> n0 \<le> length (snd rs) \<Longrightarrow>
   ret_ok n0 (fst rs') (snd rs')"
proof (induction ms arbitrary: rs)
  case Nil
  then show ?case by simp
next
  case (Cons m ms)
  then obtain r1 where r1: "getMixinMethods_step m rs = Inr r1"
    and rest: "forEachE getMixinMethods_step ms r1 = Inr rs'"
    by (auto split: sum.splits)
  from step_ext [OF r1] Cons.prems(3) have "n0 \<le> length (snd r1)" by auto
  with Cons.IH [OF rest step_ok [OF r1 Cons.prems(2,3)]] show ?case by simp
qed

lemma list_untouched:
  "forEachE getMixinMethods_step ms rs = Inr rs' \<Longrightarrow>
   \<forall>m\<in>set ms. \<not> defines_method (snd rs) m k \<and> \<not> defines_hook (snd rs) m k \<Longrightarrow>
   get_prop (fst rs') k = get_prop (fst rs) k"
proof (induction ms arbitrary: rs)
  case Nil
  then show ?case by simp
next
  case (Cons m ms)
  then obtain r1 where r1: "getMixinMethods_step m rs = Inr r1"
    and rest: "forEachE getMixinMethods_step ms r1 = Inr rs'"
    by (auto split: sum.splits)
  from step_ext [OF r1] obtain e1 where e1: "snd r1 = snd rs @ e1" "list_all propless e1"
    by blast
  have "\<forall>m\<in>set ms. \<not> defines_method (snd r1) m k \<and> \<not> defines_hook (snd r1) m k"
    using Cons.prems(2) by (simp add: e1 defines_method_ext defines_hook_ext)
  from Cons.IH [OF rest this] have "get_prop (fst rs') k = get_prop (fst r1) k" .
  also have "\<dots> = get_prop (fst rs) k"
    using step_nohook [OF r1, of k] Cons.prems(2) by simp
  finally show ?case .
qed

lemma list_last_method:
  assumes "forEachE getMixinMethods_step (ms1 @ m # ms2) rs = Inr rs'"
    and "defines_method (snd rs) m k" and "\<not> defines_hook (snd rs) m k"
    and "\<forall>m'\<in>set ms2. \<not> defines_method (snd rs) m' k \<and> \<not> defines_hook (snd rs) m' k"
  shows "get_prop (fst rs') k = get_prop (mixin_methods (snd rs) m) k"
proof -
  from assms(1) obtain r1 r2 where
    p1: "forEachE getMixinMethods_step ms1 rs = Inr r1"
    and p2: "getMixinMethods_step m r1 = Inr r2"
    and p3: "forEachE getMixinMethods_step ms2 r2 = Inr rs'"
    by (auto simp: forEachE_append split: sum.splits)
  from list_ext [OF p1] obtain e1 where e1: "snd r1 = snd rs @ e1" "list_all propless e1"
    by blast
  from step_ext [OF p2] obtain e2 where e2: "snd r2 = snd r1 @ e2" "list_all propless e2"
    by blast
  have e12: "snd r2 = snd rs @ (e1 @ e2)" "list_all propless (e1 @ e2)"
    by (simp_all add: e1 e2)
  have "\<forall>m'\<in>set ms2. \<not> defines_method (snd r2) m' k \<and> \<not> defines_hook (snd r2) m' k"
    using assms(4) unfolding e12(1)
    by (simp add: defines_method_ext [OF e12(2)] defines_hook_ext [OF e12(2)])
  from list_untouched [OF p3 this] have "get_prop (fst rs') k = get_prop (fst r2) k" .
  also have "\<dots> = get_prop (mixin_methods (snd r1) m) k"
    using step_nohook [OF p2, of k] assms(2,3)
    by (simp add: e1 defines_method_ext defines_hook_ext)
  also have "\<dots> = get_prop (mixin_methods (snd rs) m) k"
    by (simp add: e1 mixin_methods_ext)
  finally show ?thesis .
qed



lemma ret_ok_empty: "ret_ok n0 [] s"
  by (intro ret_okI) (simp_all add: val_ok_undef)

lemma getMixinMethods_facts:
  assumes "getMixinMethods s ms = Inr (mm, s1)"
  shows "ret_ok (length s) mm s1" and "\<exists>ext. s1 = s @ ext \<and> list_all propless ext"
proof -
  from assms have f: "forEachE getMixinMethods_step ms ([], s) = Inr (mm, s1)"
    by (simp add: getMixinMethods_def)
  from list_ok [OF f, of "length s"] show "ret_ok (length s) mm s1"
    by (simp add: ret_ok_empty)
  from list_ext [OF f] show "\<exists>ext. s1 = s @ ext \<and> list_all propless ext" by simp
qed

subsection \<open>The entry point\<close>

lemma isArray_mixData: "isArray (mixData md d s) v = isArray s v"
proof -
  have "isArray (fold (\<lambda>key s. if member s (VRef d) key \<noteq> VUndefined then s
                              else set_member s d key (get_prop md key)) ks s) v = isArray s v" for ks
    by (induction ks arbitrary: s) (simp_all add: isArray_set_member)
  then show ?thesis by (simp add: mixData_def)
qed

lemma isArray_assign: "isArray (assign s a src) v = isArray s v"
proof (induction src arbitrary: s)
  case Nil
  show ?case by (simp add: assign_def)
next
  case (Cons kv src)
  obtain k x where kv: "kv = (k, x)" by (cases kv)
  have "assign s a (kv # src) = assign (set_member s a k x) a src"
    by (simp add: assign_def kv)
  then show ?case by (simp add: Cons.IH isArray_set_member)
qed

lemma mixins_of_fresh_obj: "mixins_of (s @ [Obj []]) v = mixins_of s v"
proof (cases v)
  case (VRef a)
  consider "a < length s" | "a = length s" | "length s < a" by linarith
  then show ?thesis
    by cases (simp_all add: mixins_of_def VRef cell_at_def nth_append)
qed (simp_all add: mixins_of_def)

lemma nativeData_of_facts:
  assumes "nativeData_of s v = Inr (d, s0)"
  shows "\<exists>ext. s0 = s @ ext \<and> list_all propless ext \<and> (ext = [] \<or> ext = [Obj []])"
    and "cell_at s0 d = Some (Obj (case v of VRef d' \<Rightarrow> (case cell_at s d' of Some (Obj ps) \<Rightarrow> ps | _ \<Rightarrow> []) | _ \<Rightarrow> []))"
    and "v = VRef d \<or> d = length s"
proof -
  show "\<exists>ext. s0 = s @ ext \<and> list_all propless ext \<and> (ext = [] \<or> ext = [Obj []])"
  proof (cases "truthy v")
    case True
    with assms have "s0 = s @ []"
      by (auto simp: nativeData_of_def split: jsval.splits option.splits cell.splits)
    then show ?thesis by (intro exI [of _ "[]"]) simp
  next
    case False
    with assms have "s0 = s @ [Obj []]" by (simp add: nativeData_of_def alloc_def)
    then show ?thesis by (intro exI [of _ "[Obj []]"]) (simp add: propless_def)
  qed
  show "cell_at s0 d = Some (Obj (case v of VRef d' \<Rightarrow> (case cell_at s d' of Some (Obj ps) \<Rightarrow> ps | _ \<Rightarrow> []) | _ \<Rightarrow> []))"
  proof (cases "truthy v")
    case True
    with assms show ?thesis
      by (auto simp: nativeData_of_def split: jsval.splits option.splits cell.splits)
  next
    case False
    with assms have "s0 = s @ [Obj []]" "d = length s" by (simp_all add: nativeData_of_def alloc_def)
    moreover from False
    have "(case v of VRef d' \<Rightarrow> (case cell_at s d' of Some (Obj ps) \<Rightarrow> ps | _ \<Rightarrow> []) | _ \<Rightarrow> []) = []"
      by (cases v) (simp_all add: truthy_def)
    ultimately show ?thesis by (simp add: cell_at_def)
  qed
  show "v = VRef d \<or> d = length s"
    using assms
    by (auto simp: nativeData_of_def alloc_def split: if_splits jsval.splits option.splits cell.splits)
qed

lemma mixin_stages:
  assumes "mixin s p = Inr s'"
  obtains pc d s0 ms md mm s1 where
    "cell_at s p = Some (Obj pc)"
    "nativeData_of s (get_prop pc ''data'') = Inr (d, s0)"
    "mixins_of s0 (get_prop pc ''mixins'') = Inr ms"
    "getMixinData s0 ms = Inr md"
    "getMixinMethods s0 ms = Inr (mm, s1)"
    "s' = mixMethods mm p
            (assign (mixData md d s1) p
               [(''data'', VRef d), (''onLoad'', VFun OnLoadFn),
                (''onBeforeLoad'', dflt (get_prop pc ''onBeforeLoad'') (VFun Noop)),
                (''onAfterLoad'', dflt (get_prop pc ''onAfterLoad'') (VFun Noop)),
                (''onNativeLoad'', if truthy (get_prop pc ''onLoad'')
                                   then get_prop pc ''onLoad'' else VFun Noop)])"
proof -
  from assms obtain pc where pc: "cell_at s p = Some (Obj pc)"
    by (auto simp: mixin_def split: option.splits cell.splits)
  obtain d s0 where nd: "nativeData_of s (get_prop pc ''data'') = Inr (d, s0)"
    using assms by (cases "nativeData_of s (get_prop pc ''data'')") (auto simp: mixin_def pc Let_def)
  obtain ms where ms: "mixins_of s0 (get_prop pc ''mixins'') = Inr ms"
    using assms
    by (cases "mixins_of s0 (get_prop pc ''mixins'')") (auto simp: mixin_def pc nd Let_def)
  obtain md where md: "getMixinData s0 ms = Inr md"
    using assms by (cases "getMixinData s0 ms") (auto simp: mixin_def pc nd ms Let_def)
  obtain mm s1 where mm: "getMixinMethods s0 ms = Inr (mm, s1)"
    using assms by (cases "getMixinMethods s0 ms") (auto simp: mixin_def pc nd ms md Let_def)
  from assms have "s' = mixMethods mm p
            (assign (mixData md d s1) p
               [(''data'', VRef d), (''onLoad'', VFun OnLoadFn),
                (''onBeforeLoad'', dflt (get_prop pc ''onBeforeLoad'') (VFun Noop)),
                (''onAfterLoad'', dflt (get_prop pc ''onAfterLoad'') (VFun Noop)),
                (''onNativeLoad'', if truthy (get_prop pc ''onLoad'')
                                   then get_prop pc ''onLoad'' else VFun Noop)])"
    by (simp add: mixin_def pc nd ms md mm Let_def)
  with pc nd ms md mm show ?thesis by (rule that)
qed

subsection \<open>The handler list of an installed dispatcher\<close>

lemma mixMethods_step_array_other:
  assumes "get_prop mm key \<noteq> VRef a" and "a \<noteq> p"
  shows "cell_at (mixMethods_step mm p key s) a = cell_at s a"
  using assms
  by (auto simp: mixMethods_step_def Let_def cell_at_set_member_other cell_at_update
           split: jsval.splits option.splits cell.splits)

lemma mixMethods_step_array_same:
  assumes "get_prop mm key = VRef a" and "cell_at s a = Some (Arr vs)"
    and "cell_at s p = Some (Obj pc)"
  shows "cell_at (mixMethods_step mm p key s) a
           = Some (Arr (if key \<in> set PAGE_EVENT
                        then vs @ (if isFunction (get_prop pc key) then [get_prop pc key] else [])
                        else vs))"
proof -
  from assms(2,3) have ap: "a \<noteq> p" by auto
  from assms(2) have alt: "a < length s" by (rule cell_at_Some_lt)
  show ?thesis
    using assms ap alt
    by (auto simp: mixMethods_step_def Let_def cell_at_set_member_other cell_at_update member_obj)
qed

lemma mixMethods_fold_array:
  assumes "distinct ks"
    and "\<And>k. get_prop mm k = VRef a \<Longrightarrow> k = E"
    and "get_prop mm E = VRef a"
    and "cell_at s a = Some (Arr vs)"
    and "cell_at s p = Some (Obj pc)"
  shows "cell_at (fold (mixMethods_step mm p) ks s) a
           = Some (Arr (if E \<in> set ks \<and> E \<in> set PAGE_EVENT
                        then vs @ (if isFunction (get_prop pc E) then [get_prop pc E] else [])
                        else vs))"
  using assms(1,4,5)
proof (induction ks arbitrary: s vs pc)
  case Nil
  then show ?case by simp
next
  case (Cons k0 ks)
  from Cons.prems have d: "distinct ks" and nk: "k0 \<notin> set ks" by auto
  from mixMethods_step_page [OF Cons.prems(3), of mm k0] obtain pc1 where
    c1: "cell_at (mixMethods_step mm p k0 s) p = Some (Obj pc1)"
    and g1: "\<And>k. get_prop pc1 k = (if k = k0 then merged_prop s mm pc k0 else get_prop pc k)"
    by blast
  from Cons.prems(2,3) have ap: "a \<noteq> p" by auto
  show ?case
  proof (cases "k0 = E")
    case True
    with nk have nE: "E \<notin> set ks" by simp
    let ?vs1 = "if E \<in> set PAGE_EVENT
                then vs @ (if isFunction (get_prop pc E) then [get_prop pc E] else []) else vs"
    have a1: "cell_at (mixMethods_step mm p k0 s) a = Some (Arr ?vs1)"
      unfolding True using assms(3) Cons.prems(2,3) by (rule mixMethods_step_array_same)
    from Cons.IH [OF d a1 c1] nE True show ?thesis by simp
  next
    case False
    then have "get_prop mm k0 \<noteq> VRef a" using assms(2) by blast
    then have "cell_at (mixMethods_step mm p k0 s) a = cell_at s a"
      using ap by (rule mixMethods_step_array_other)
    with Cons.prems(2) have a1: "cell_at (mixMethods_step mm p k0 s) a = Some (Arr vs)" by simp
    have "get_prop pc1 E = get_prop pc E" using False by (simp add: g1)
    with Cons.IH [OF d a1 c1] False show ?thesis by simp
  qed
qed

lemma page_mixins_eq:
  assumes "cell_at s p = Some (Obj pc)" and "mixins_of s (get_prop pc ''mixins'') = Inr ms"
  shows "page_mixins s p = ms"
  using assms by (simp add: page_mixins_def member_obj)

lemma page_data_eq:
  assumes "cell_at s p = Some (Obj pc)"
  shows "page_data s p = (case get_prop pc ''data'' of
            VRef d' \<Rightarrow> (case cell_at s d' of Some (Obj ps) \<Rightarrow> ps | _ \<Rightarrow> []) | _ \<Rightarrow> [])"
  using assms by (simp add: page_data_def member_obj)

lemma assigned_fold:
  "get_prop (fold (\<lambda>(key, v) r. set_prop r key v)
       [(''data'', VRef d), (''onLoad'', VFun OnLoadFn),
        (''onBeforeLoad'', dflt (get_prop pc ''onBeforeLoad'') (VFun Noop)),
        (''onAfterLoad'', dflt (get_prop pc ''onAfterLoad'') (VFun Noop)),
        (''onNativeLoad'', if truthy (get_prop pc ''onLoad'')
                           then get_prop pc ''onLoad'' else VFun Noop)] pc) k
     = assigned_prop pc d k"
  by (simp add: assigned_prop_def)

lemma mixin_final:
  assumes run: "mixin s p = Inr s'" and own: "member s (VRef p) ''data'' \<noteq> VRef p"
  obtains pc d s0 md mm s1 pc3 where
    "cell_at s p = Some (Obj pc)"
    "nativeData_of s (get_prop pc ''data'') = Inr (d, s0)"
    "getMixinData s0 (page_mixins s p) = Inr md"
    "getMixinMethods s0 (page_mixins s p) = Inr (mm, s1)"
    "\<exists>ext. s0 = s @ ext \<and> list_all propless ext"
    "\<exists>ext. s1 = s0 @ ext \<and> list_all propless ext"
    "ret_ok (length s0) mm s1"
    "d \<noteq> p" "p < length s" "d < length s0"
    "length s' = length s1"
    "\<And>k. get_prop pc3 k = assigned_prop pc d k"
    "\<And>k. member s' (VRef p) k =
            (if k \<in> set (object_keys mm) then merged_prop s1 mm pc3 k else get_prop pc3 k)"
    "cell_at s' d = cell_at (mixData md d s1) d"
    "cell_at s1 d = Some (Obj (page_data s p))"
    "\<And>a E vs. get_prop mm E = VRef a \<Longrightarrow> cell_at s1 a = Some (Arr vs) \<Longrightarrow>
        cell_at s' a = Some (Arr (if E \<in> set PAGE_EVENT
                                  then vs @ (if isFunction (get_prop pc3 E) then [get_prop pc3 E] else [])
                                  else vs))"
proof -
  from run obtain pc d s0 ms md mm s1 where
    pc: "cell_at s p = Some (Obj pc)"
    and nd: "nativeData_of s (get_prop pc ''data'') = Inr (d, s0)"
    and ms: "mixins_of s0 (get_prop pc ''mixins'') = Inr ms"
    and md: "getMixinData s0 ms = Inr md"
    and mm: "getMixinMethods s0 ms = Inr (mm, s1)"
    and s': "s' = mixMethods mm p
            (assign (mixData md d s1) p
               [(''data'', VRef d), (''onLoad'', VFun OnLoadFn),
                (''onBeforeLoad'', dflt (get_prop pc ''onBeforeLoad'') (VFun Noop)),
                (''onAfterLoad'', dflt (get_prop pc ''onAfterLoad'') (VFun Noop)),
                (''onNativeLoad'', if truthy (get_prop pc ''onLoad'')
                                   then get_prop pc ''onLoad'' else VFun Noop)])"
    by (rule mixin_stages)
  let ?src = "[(''data'', VRef d), (''onLoad'', VFun OnLoadFn),
                (''onBeforeLoad'', dflt (get_prop pc ''onBeforeLoad'') (VFun Noop)),
                (''onAfterLoad'', dflt (get_prop pc ''onAfterLoad'') (VFun Noop)),
                (''onNativeLoad'', if truthy (get_prop pc ''onLoad'')
                                   then get_prop pc ''onLoad'' else VFun Noop)]"
  let ?s2 = "mixData md d s1"
  let ?s3 = "assign ?s2 p ?src"
  from nativeData_of_facts(1) [OF nd] obtain e0 where
    e0: "s0 = s @ e0" "list_all propless e0" "e0 = [] \<or> e0 = [Obj []]" by blast
  from getMixinMethods_facts [OF mm] obtain e1 where
    ok: "ret_ok (length s0) mm s1" and e1: "s1 = s0 @ e1" "list_all propless e1" by blast
  from pc have plt: "p < length s" by (rule cell_at_Some_lt)
  have dc0: "cell_at s0 d = Some (Obj (page_data s p))"
    using nativeData_of_facts(2) [OF nd] by (simp add: page_data_eq [OF pc])
  then have dlt: "d < length s0" by (rule cell_at_Some_lt)
  have dp: "d \<noteq> p"
    using nativeData_of_facts(3) [OF nd] own plt by (auto simp: member_obj [OF pc])
  have "mixins_of s0 (get_prop pc ''mixins'') = mixins_of s (get_prop pc ''mixins'')"
    using e0 by (auto simp: mixins_of_fresh_obj)
  with ms have pm: "page_mixins s p = ms" by (simp add: page_mixins_eq [OF pc])
  have pc1: "cell_at s1 p = Some (Obj pc)"
    using pc plt by (simp add: e1 e0)
  have dc1: "cell_at s1 d = Some (Obj (page_data s p))"
    using dc0 dlt by (simp add: e1)
  have pc2: "cell_at ?s2 p = Some (Obj pc)"
    using pc1 dp by (simp add: mixData_other)
  define pc3 where "pc3 = fold (\<lambda>(key, v) r. set_prop r key v) ?src pc"
  have c3: "cell_at ?s3 p = Some (Obj pc3)"
    unfolding pc3_def using pc2 by (rule assign_same)
  have g3: "get_prop pc3 k = assigned_prop pc d k" for k
    unfolding pc3_def by (rule assigned_fold)
  have arr: "isArray ?s3 v = isArray s1 v" for v
    by (simp add: isArray_assign isArray_mixData)
  have fin: "member s' (VRef p) k =
            (if k \<in> set (object_keys mm) then merged_prop s1 mm pc3 k else get_prop pc3 k)" for k
  proof -
    have "merged_prop ?s3 mm pc3 k = merged_prop s1 mm pc3 k"
      by (rule merged_prop_cong) (simp_all add: arr)
    then show ?thesis
      unfolding s' using mixMethods_page [OF c3 ret_okD(1) [OF ok], of k] by simp
  qed
  obtain ps2 where ps2: "cell_at ?s2 d = Some (Obj ps2)"
    using mixData_cell [OF dc1, of md] by blast
  then have "cell_at ?s3 d = Some (Obj ps2)" using dp by (simp add: assign_other)
  then have "cell_at s' d = Some (Obj ps2)"
    unfolding s' using dp by (intro mixMethods_obj)
  with ps2 have dfin: "cell_at s' d = cell_at ?s2 d" by simp
  have len: "length s' = length s1" by (simp add: s')
  have arrs: "cell_at s' a = Some (Arr (if E \<in> set PAGE_EVENT
                                  then vs @ (if isFunction (get_prop pc3 E) then [get_prop pc3 E] else [])
                                  else vs))"
    if ref: "get_prop mm E = VRef a" and cell: "cell_at s1 a = Some (Arr vs)" for a E vs
  proof -
    from ret_okD(3) [OF ok, of E] have n0: "length s0 \<le> a"
      and inj: "\<And>k. get_prop mm k = VRef a \<Longrightarrow> k = E"
      by (cases rule: val_ok_cases; simp add: ref not_fn_ref)+
    from n0 plt dlt have ne: "a \<noteq> p" "a \<noteq> d" by (auto simp: e0(1))
    have c3a: "cell_at ?s3 a = Some (Arr vs)"
      using cell ne by (simp add: assign_other mixData_other)
    from ref have "get_prop mm E \<noteq> VUndefined" by simp
    then have kin: "E \<in> set (object_keys mm)" by (rule get_prop_present)
    from mixMethods_fold_array [OF ret_okD(1) [OF ok] inj ref c3a c3] kin
    show ?thesis by (simp add: s' mixMethods_def)
  qed
  show ?thesis
  proof (rule that [of pc d s0 md mm s1 pc3])
    show "cell_at s p = Some (Obj pc)" by (rule pc)
    show "nativeData_of s (get_prop pc ''data'') = Inr (d, s0)" by (rule nd)
    show "getMixinData s0 (page_mixins s p) = Inr md" using md pm by simp
    show "getMixinMethods s0 (page_mixins s p) = Inr (mm, s1)" using mm pm by simp
    show "\<exists>ext. s0 = s @ ext \<and> list_all propless ext" using e0(1,2) by blast
    show "\<exists>ext. s1 = s0 @ ext \<and> list_all propless ext" using e1 by blast
    show "ret_ok (length s0) mm s1" by (rule ok)
    show "d \<noteq> p" by (rule dp)
    show "p < length s" by (rule plt)
    show "d < length s0" by (rule dlt)
    show "length s' = length s1" by (rule len)
    show "\<And>k. get_prop pc3 k = assigned_prop pc d k" by (rule g3)
    show "\<And>k. member s' (VRef p) k =
            (if k \<in> set (object_keys mm) then merged_prop s1 mm pc3 k else get_prop pc3 k)"
      by (rule fin)
    show "cell_at s' d = cell_at (mixData md d s1) d" by (rule dfin)
    show "cell_at s1 d = Some (Obj (page_data s p))" by (rule dc1)
    show "\<And>a E vs. get_prop mm E = VRef a \<Longrightarrow> cell_at s1 a = Some (Arr vs) \<Longrightarrow>
        cell_at s' a = Some (Arr (if E \<in> set PAGE_EVENT
                                  then vs @ (if isFunction (get_prop pc3 E) then [get_prop pc3 E] else [])
                                  else vs))"
      by (rule arrs)
  qed
qed

subsection \<open>The final value of a property of the page\<close>

lemma page_event_names:
  assumes "k \<in> set PAGE_EVENT"
  shows "k \<noteq> ''data''" "k \<noteq> ''onBeforeLoad''" "k \<noteq> ''onAfterLoad''" "k \<noteq> ''onNativeLoad''"
  using assms by (auto simp: PAGE_EVENT_def)


lemma defines_method_fn:
  "defines_method s m k \<Longrightarrow> isFunction (get_prop (mixin_methods s m) k)"
  by (simp add: defines_method_def)


lemma isFunction_not_nullish: "isFunction v \<Longrightarrow> \<not> nullish v"
  by (auto simp: isFunction_def nullish_def)

lemma isFunction_not_array: "isFunction v \<Longrightarrow> \<not> isArray s v"
  by (cases v) (auto simp: isFunction_def isArray_def)

lemma merged_prop_plain:
  "k \<notin> set PAGE_EVENT \<Longrightarrow>
   merged_prop s mm pc k = (if nullish (get_prop pc k) then get_prop mm k else get_prop pc k)"
  by (simp add: merged_prop_def)

lemma merged_prop_fn:
  "k \<in> set PAGE_EVENT \<Longrightarrow> isFunction (get_prop mm k) \<Longrightarrow> merged_prop s mm pc k = get_prop pc k"
  by (cases "get_prop mm k") (simp_all add: merged_prop_def isFunction_def)

text \<open>The value collected for a name that no mixin defines as a lifecycle property.\<close>

lemma collected_last:
  assumes mm: "getMixinMethods s0 (ms1 @ m # ms2) = Inr (mm, s1)"
    and ext: "s0 = s @ ext" "list_all propless ext"
    and def: "defines_method s m k"
    and later: "\<forall>m'\<in>set ms2. \<not> defines_method s m' k"
    and nohook: "\<forall>m'\<in>set (m # ms2). \<not> defines_hook s m' k"
  shows "get_prop mm k = get_prop (mixin_methods s m) k"
proof -
  from mm have f: "forEachE getMixinMethods_step (ms1 @ m # ms2) ([], s0) = Inr (mm, s1)"
    by (simp add: getMixinMethods_def)
  have "get_prop (fst (mm, s1)) k = get_prop (mixin_methods (snd ([]::props, s0)) m) k"
  proof (rule list_last_method [OF f])
    show "defines_method (snd ([]::props, s0)) m k"
      using def by (simp add: ext(1) defines_method_ext [OF ext(2)])
    show "\<not> defines_hook (snd ([]::props, s0)) m k"
      using nohook by (simp add: ext(1) defines_hook_ext [OF ext(2)])
    show "\<forall>m'\<in>set ms2. \<not> defines_method (snd ([]::props, s0)) m' k \<and> \<not> defines_hook (snd ([]::props, s0)) m' k"
      using later nohook
      by (simp add: ext(1) defines_method_ext [OF ext(2)] defines_hook_ext [OF ext(2)])
  qed
  then show ?thesis by (simp add: ext(1) mixin_methods_ext [OF ext(2)])
qed

lemma collected_none:
  assumes mm: "getMixinMethods s0 ms = Inr (mm, s1)"
    and ext: "s0 = s @ ext" "list_all propless ext"
    and none: "\<forall>m\<in>set ms. \<not> defines_method s m k \<and> \<not> defines_hook s m k"
  shows "get_prop mm k = VUndefined"
proof -
  from mm have f: "forEachE getMixinMethods_step ms ([], s0) = Inr (mm, s1)"
    by (simp add: getMixinMethods_def)
  have "get_prop (fst (mm, s1)) k = get_prop (fst ([]::props, s0)) k"
  proof (rule list_untouched [OF f])
    show "\<forall>m\<in>set ms. \<not> defines_method (snd ([]::props, s0)) m k \<and> \<not> defines_hook (snd ([]::props, s0)) m k"
      using none
      by (simp add: ext(1) defines_method_ext [OF ext(2)] defines_hook_ext [OF ext(2)])
  qed
  then show ?thesis by simp
qed


text \<open>
  A name outside the lifecycle events: the page keeps what it holds after the entry point
  has assigned its own slots, unless that is \<open>null\<close> or \<open>undefined\<close>; then the last mixin
  whose \<open>methods\<close> define the name as a function gives the value.
\<close>

lemma final_plain_kept:
  assumes run: "mixin s p = Inr s'" and own: "member s (VRef p) ''data'' \<noteq> VRef p"
    and k: "k \<notin> set PAGE_EVENT"
  shows "\<exists>pc d. cell_at s p = Some (Obj pc) \<and>
           (\<not> nullish (assigned_prop pc d k) \<longrightarrow> member s' (VRef p) k = assigned_prop pc d k)"
proof (rule mixin_final [OF run own])
  fix pc d s0 md mm s1 pc3
  assume pc: "cell_at s p = Some (Obj pc)"
    and g3: "\<And>k. get_prop pc3 k = assigned_prop pc d k"
    and fin: "\<And>k. member s' (VRef p) k =
            (if k \<in> set (object_keys mm) then merged_prop s1 mm pc3 k else get_prop pc3 k)"
  have "member s' (VRef p) k = assigned_prop pc d k" if "\<not> nullish (assigned_prop pc d k)"
    using that by (simp add: fin merged_prop_plain [OF k] g3)
  with pc show ?thesis by blast
qed



text \<open>A lifecycle event that no mixin defines as a property of its own.\<close>

lemma final_event_kept:
  assumes run: "mixin s p = Inr s'" and own: "member s (VRef p) ''data'' \<noteq> VRef p"
    and E: "E \<in> set PAGE_EVENT" "E \<noteq> ''onLoad''"
    and nohook: "\<forall>m\<in>set (page_mixins s p). \<not> isFunction (member s m E)"
  shows "member s' (VRef p) E = member s (VRef p) E"
    and "(\<exists>m\<in>set (page_mixins s p). isFunction (get_prop (mixin_methods s m) E)) \<longrightarrow>
         (\<exists>s0 mm s1. (\<exists>ext. s0 = s @ ext) \<and>
            getMixinMethods s0 (page_mixins s p) = Inr (mm, s1) \<and> isFunction (get_prop mm E))"
proof -
  have both: "member s' (VRef p) E = member s (VRef p) E \<and>
     ((\<exists>m\<in>set (page_mixins s p). isFunction (get_prop (mixin_methods s m) E)) \<longrightarrow>
         (\<exists>s0 mm s1. (\<exists>ext. s0 = s @ ext) \<and>
            getMixinMethods s0 (page_mixins s p) = Inr (mm, s1) \<and> isFunction (get_prop mm E)))"
  proof (rule mixin_final [OF run own])
    fix pc d s0 md mm s1 pc3
    assume pc: "cell_at s p = Some (Obj pc)"
      and mm: "getMixinMethods s0 (page_mixins s p) = Inr (mm, s1)"
      and e0: "\<exists>ext. s0 = s @ ext \<and> list_all propless ext"
      and g3: "\<And>k. get_prop pc3 k = assigned_prop pc d k"
      and fin: "\<And>k. member s' (VRef p) k =
              (if k \<in> set (object_keys mm) then merged_prop s1 mm pc3 k else get_prop pc3 k)"
    from e0 obtain ext where ext: "s0 = s @ ext" "list_all propless ext" by blast
    have nh: "\<forall>m\<in>set (page_mixins s p). \<not> defines_hook s m E"
      using nohook by (simp add: defines_hook_def)
    have a3: "get_prop pc3 E = get_prop pc E"
      using E page_event_names [OF E(1)] by (simp add: g3 assigned_prop_def)
    have val: "isFunction (get_prop mm E) \<or> get_prop mm E = VUndefined"
    proof (cases "\<exists>m\<in>set (page_mixins s p). defines_method s m E")
      case True
      from split_list_last_prop [OF True] obtain ms1 m ms2 where
        sp: "page_mixins s p = ms1 @ m # ms2" and def: "defines_method s m E"
        and later: "\<forall>m'\<in>set ms2. \<not> defines_method s m' E" by blast
      have "get_prop mm E = get_prop (mixin_methods s m) E"
        using mm [unfolded sp] ext def later
        by (rule collected_last) (use nh sp in auto)
      with def show ?thesis by (simp add: defines_method_fn)
    next
      case False
      with nh have "\<forall>m\<in>set (page_mixins s p). \<not> defines_method s m E \<and> \<not> defines_hook s m E"
        by blast
      from collected_none [OF mm ext this] show ?thesis by simp
    qed
    have "merged_prop s1 mm pc3 E = get_prop pc3 E"
      using val
    proof
      assume "isFunction (get_prop mm E)"
      then show ?thesis by (rule merged_prop_fn [OF E(1)])
    next
      assume "get_prop mm E = VUndefined"
      then show ?thesis using E(1) by (simp add: merged_prop_def)
    qed
    then have one: "member s' (VRef p) E = member s (VRef p) E"
      by (simp add: fin a3 member_obj [OF pc])
    have two: "\<exists>s0 mm s1. (\<exists>ext. s0 = s @ ext) \<and>
            getMixinMethods s0 (page_mixins s p) = Inr (mm, s1) \<and> isFunction (get_prop mm E)"
      if "\<exists>m\<in>set (page_mixins s p). isFunction (get_prop (mixin_methods s m) E)"
    proof -
      from that E(2) have "\<exists>m\<in>set (page_mixins s p). defines_method s m E"
        by (simp add: defines_method_def)
      from split_list_last_prop [OF this] obtain ms1 m ms2 where
        sp: "page_mixins s p = ms1 @ m # ms2" and def: "defines_method s m E"
        and later: "\<forall>m'\<in>set ms2. \<not> defines_method s m' E" by blast
      have "get_prop mm E = get_prop (mixin_methods s m) E"
        using mm [unfolded sp] ext def later
        by (rule collected_last) (use nh sp in auto)
      with def have "isFunction (get_prop mm E)" by (simp add: defines_method_fn)
      with mm ext(1) show ?thesis by blast
    qed
    from one two show ?thesis by blast
  qed
  from both show "member s' (VRef p) E = member s (VRef p) E" by blast
  from both show "(\<exists>m\<in>set (page_mixins s p). isFunction (get_prop (mixin_methods s m) E)) \<longrightarrow>
         (\<exists>s0 mm s1. (\<exists>ext. s0 = s @ ext) \<and>
            getMixinMethods s0 (page_mixins s p) = Inr (mm, s1) \<and> isFunction (get_prop mm E))"
    by blast
qed

subsection \<open>The merge returns on well-shaped input\<close>

lemma mixin_intro:
  assumes "cell_at s p = Some (Obj pc)"
    and "nativeData_of s (get_prop pc ''data'') = Inr (d, s0)"
    and "mixins_of s0 (get_prop pc ''mixins'') = Inr ms"
    and "getMixinData s0 ms = Inr md"
    and "getMixinMethods s0 ms = Inr (mm, s1)"
    and "mixMethods mm p
            (assign (mixData md d s1) p
               [(''data'', VRef d), (''onLoad'', VFun OnLoadFn),
                (''onBeforeLoad'', dflt (get_prop pc ''onBeforeLoad'') (VFun Noop)),
                (''onAfterLoad'', dflt (get_prop pc ''onAfterLoad'') (VFun Noop)),
                (''onNativeLoad'', if truthy (get_prop pc ''onLoad'')
                                   then get_prop pc ''onLoad'' else VFun Noop)]) = s'"
  shows "mixin s p = Inr s'"
  using assms by (simp add: mixin_def Let_def)

lemma mapping_ok_entries: "mapping_ok s v \<Longrightarrow> \<exists>es. own_entries s v = Inr es"
  by (cases v) (auto simp: mapping_ok_def own_entries_def split: option.splits cell.splits)

lemma mapping_ok_append: "mapping_ok s v \<Longrightarrow> mapping_ok (s @ ext) v"
proof (cases v)
  case (VRef a)
  assume "mapping_ok s v"
  with VRef obtain ps where c: "cell_at s a = Some (Obj ps)"
    by (auto simp: mapping_ok_def split: option.splits cell.splits)
  then have "a < length s" by (rule cell_at_Some_lt)
  with c VRef show ?thesis by (simp add: mapping_ok_def)
qed (simp_all add: mapping_ok_def)

lemma mixin_ok_ext:
  assumes "list_all propless ext" and "mixin_ok s m"
  shows "mixin_ok (s @ ext) m"
  using assms(2) by (simp add: mixin_ok_def member_ext [OF assms(1)] mapping_ok_append)

lemma getMixinData_step_total:
  assumes "mixin_ok s m"
  shows "\<exists>r. getMixinData_step s m ret = Inr r"
proof -
  from assms have "mapping_ok s (member s m ''data'')" and nn: "\<not> nullish m"
    by (simp_all add: mixin_ok_def)
  from mapping_ok_entries [OF this(1)] obtain es where
    "own_entries s (member s m ''data'') = Inr es" by blast
  with nn show ?thesis by (simp add: getMixinData_step_def)
qed

lemma getMixinData_total:
  "list_all (mixin_ok s) ms \<Longrightarrow> \<exists>md. forEachE (getMixinData_step s) ms ret = Inr md"
proof (induction ms arbitrary: ret)
  case Nil
  show ?case by simp
next
  case (Cons m ms)
  from Cons.prems have m: "mixin_ok s m" and rest: "list_all (mixin_ok s) ms" by simp_all
  from getMixinData_step_total [OF m, of ret] obtain r where
    r: "getMixinData_step s m ret = Inr r" by blast
  from Cons.IH [OF rest, of r] show ?case by (simp add: r)
qed

lemma getMixinMethods_step_total:
  assumes "mixin_ok (snd rs) m"
  shows "\<exists>r. getMixinMethods_step m rs = Inr r"
proof -
  from assms have "mapping_ok (snd rs) (member (snd rs) m ''methods'')" and nn: "\<not> nullish m"
    by (simp_all add: mixin_ok_def)
  from mapping_ok_entries [OF this(1)] obtain es where
    "own_entries (snd rs) (member (snd rs) m ''methods'') = Inr es" by blast
  with nn show ?thesis by (simp add: getMixinMethods_step_def)
qed

lemma getMixinMethods_total:
  "list_all (mixin_ok (snd rs)) ms \<Longrightarrow> \<exists>r. forEachE getMixinMethods_step ms rs = Inr r"
proof (induction ms arbitrary: rs)
  case Nil
  show ?case by simp
next
  case (Cons m ms)
  from Cons.prems have m: "mixin_ok (snd rs) m" and rest: "list_all (mixin_ok (snd rs)) ms"
    by simp_all
  from getMixinMethods_step_total [OF m] obtain r where
    r: "getMixinMethods_step m rs = Inr r" by blast
  from step_ext [OF r] obtain ext where ext: "snd r = snd rs @ ext" "list_all propless ext"
    by blast
  have "list_all (mixin_ok (snd r)) ms"
    using rest by (simp add: ext(1) list_all_iff mixin_ok_ext [OF ext(2)])
  from Cons.IH [OF this] show ?case by (simp add: r)
qed

text \<open>
  On input of the declared shape the entry point returns: it raises no error of its own.
\<close>

lemma mixin_total:
  assumes "well_shaped s p"
  shows "\<exists>s'. mixin s p = Inr s'"
proof -
  from assms obtain pc where pc: "cell_at s p = Some (Obj pc)"
    by (auto simp: well_shaped_def split: option.splits cell.splits)
  from assms pc obtain ms where ms: "mixins_of s (get_prop pc ''mixins'') = Inr ms"
    and oks: "list_all (mixin_ok s) ms"
    by (auto simp: well_shaped_def split: sum.splits)
  from assms pc have dv: "case get_prop pc ''data'' of
             VRef d \<Rightarrow> (case cell_at s d of Some (Obj ps) \<Rightarrow> True | _ \<Rightarrow> False)
           | v \<Rightarrow> \<not> truthy v"
    by (simp add: well_shaped_def)
  have "\<exists>d s0. nativeData_of s (get_prop pc ''data'') = Inr (d, s0)"
  proof (cases "truthy (get_prop pc ''data'')")
    case True
    with dv obtain d ps where "get_prop pc ''data'' = VRef d" "cell_at s d = Some (Obj ps)"
      by (cases "get_prop pc ''data''") (auto split: option.splits cell.splits)
    then show ?thesis by (simp add: nativeData_of_def truthy_def)
  next
    case False
    then show ?thesis by (simp add: nativeData_of_def alloc_def)
  qed
  then obtain d s0 where nd: "nativeData_of s (get_prop pc ''data'') = Inr (d, s0)" by blast
  from nativeData_of_facts(1) [OF nd] obtain e0 where
    e0: "s0 = s @ e0" "list_all propless e0" "e0 = [] \<or> e0 = [Obj []]" by blast
  have ms0: "mixins_of s0 (get_prop pc ''mixins'') = Inr ms"
    using e0 ms by (auto simp: mixins_of_fresh_obj)
  have oks0: "list_all (mixin_ok s0) ms"
    using oks by (simp add: e0(1) list_all_iff mixin_ok_ext [OF e0(2)])
  from getMixinData_total [OF oks0, of "[]"] obtain md where
    md: "getMixinData s0 ms = Inr md" by (auto simp: getMixinData_def)
  from getMixinMethods_total [of "([], s0)" ms] oks0 obtain r where
    "forEachE getMixinMethods_step ms ([], s0) = Inr r" by auto
  then obtain mm s1 where mm: "getMixinMethods s0 ms = Inr (mm, s1)"
    by (cases r) (simp add: getMixinMethods_def)
  from mixin_intro [OF pc nd ms0 md mm refl] show ?thesis by blast
qed

subsection \<open>Concrete runs, stage by stage\<close>

lemma ex_run: "mixin ex_store 0 = Inr ex_final"
proof (rule mixin_intro)
  show "cell_at ex_store 0 = Some (Obj [(''data'', VRef 1), (''onShow'', VFun (UserFn 10)), (''mixins'', VRef 2)])"
    by code_simp
  show "nativeData_of ex_store (get_prop [(''data'', VRef 1), (''onShow'', VFun (UserFn 10)), (''mixins'', VRef 2)] ''data'') = Inr (1, ex_store)"
    by code_simp
  show "mixins_of ex_store (get_prop [(''data'', VRef 1), (''onShow'', VFun (UserFn 10)), (''mixins'', VRef 2)] ''mixins'') = Inr [VRef 3, VRef 5]"
    by code_simp
  show "getMixinData ex_store [VRef 3, VRef 5] = Inr [(''a'', VNum 2), (''b'', VNum 3), (''c'', VNum 3)]"
    by code_simp
  show "getMixinMethods ex_store [VRef 3, VRef 5]
   = Inr ([(''onShow'', VRef 8)], ex_store @ [Arr [VFun (UserFn 1)], Arr [VFun (UserFn 1), VFun (UserFn 2)]])"
    by code_simp
  show "mixMethods [(''onShow'', VRef 8)] 0
            (assign (mixData [(''a'', VNum 2), (''b'', VNum 3), (''c'', VNum 3)] 1 (ex_store @ [Arr [VFun (UserFn 1)], Arr [VFun (UserFn 1), VFun (UserFn 2)]])) 0
               [(''data'', VRef 1), (''onLoad'', VFun OnLoadFn),
                (''onBeforeLoad'', dflt (get_prop [(''data'', VRef 1), (''onShow'', VFun (UserFn 10)), (''mixins'', VRef 2)] ''onBeforeLoad'') (VFun Noop)),
                (''onAfterLoad'', dflt (get_prop [(''data'', VRef 1), (''onShow'', VFun (UserFn 10)), (''mixins'', VRef 2)] ''onAfterLoad'') (VFun Noop)),
                (''onNativeLoad'', if truthy (get_prop [(''data'', VRef 1), (''onShow'', VFun (UserFn 10)), (''mixins'', VRef 2)] ''onLoad'')
                                   then get_prop [(''data'', VRef 1), (''onShow'', VFun (UserFn 10)), (''mixins'', VRef 2)] ''onLoad'' else VFun Noop)]) = ex_final"
    by code_simp
qed


lemma exB_run: "mixin exB 0 = Inr exB_final"
proof (rule mixin_intro)
  show "cell_at exB 0 = Some (Obj [(''mixins'', VRef 1)])"
    by code_simp
  show "nativeData_of exB (get_prop [(''mixins'', VRef 1)] ''data'') = Inr (6, exB @ [Obj []])"
    by code_simp
  show "mixins_of (exB @ [Obj []]) (get_prop [(''mixins'', VRef 1)] ''mixins'') = Inr [VRef 2, VRef 4]"
    by code_simp
  show "getMixinData (exB @ [Obj []]) [VRef 2, VRef 4] = Inr []"
    by code_simp
  show "getMixinMethods (exB @ [Obj []]) [VRef 2, VRef 4] = Inr ([(''onBeforeLoad'', VFun (UserFn 2))], exB @ [Obj []])"
    by code_simp
  show "mixMethods [(''onBeforeLoad'', VFun (UserFn 2))] 0
          (assign (mixData [] 6 (exB @ [Obj []])) 0
             [(''data'', VRef 6), (''onLoad'', VFun OnLoadFn),
                (''onBeforeLoad'', dflt (get_prop [(''mixins'', VRef 1)] ''onBeforeLoad'') (VFun Noop)),
                (''onAfterLoad'', dflt (get_prop [(''mixins'', VRef 1)] ''onAfterLoad'') (VFun Noop)),
                (''onNativeLoad'', if truthy (get_prop [(''mixins'', VRef 1)] ''onLoad'')
                                   then get_prop [(''mixins'', VRef 1)] ''onLoad'' else VFun Noop)]) = exB_final"
    by code_simp
qed

lemma exC_run: "mixin exC 0 = Inr exC_final"
proof (rule mixin_intro)
  show "cell_at exC 0 = Some (Obj [(''onBeforeLoad'', VNull), (''mixins'', VRef 1)])"
    by code_simp
  show "nativeData_of exC (get_prop [(''onBeforeLoad'', VNull), (''mixins'', VRef 1)] ''data'') = Inr (4, exC @ [Obj []])"
    by code_simp
  show "mixins_of (exC @ [Obj []]) (get_prop [(''onBeforeLoad'', VNull), (''mixins'', VRef 1)] ''mixins'') = Inr [VRef 2]"
    by code_simp
  show "getMixinData (exC @ [Obj []]) [VRef 2] = Inr []"
    by code_simp
  show "getMixinMethods (exC @ [Obj []]) [VRef 2] = Inr ([(''onBeforeLoad'', VFun (UserFn 1))], exC @ [Obj []])"
    by code_simp
  show "mixMethods [(''onBeforeLoad'', VFun (UserFn 1))] 0
          (assign (mixData [] 4 (exC @ [Obj []])) 0
             [(''data'', VRef 4), (''onLoad'', VFun OnLoadFn),
                (''onBeforeLoad'', dflt (get_prop [(''onBeforeLoad'', VNull), (''mixins'', VRef 1)] ''onBeforeLoad'') (VFun Noop)),
                (''onAfterLoad'', dflt (get_prop [(''onBeforeLoad'', VNull), (''mixins'', VRef 1)] ''onAfterLoad'') (VFun Noop)),
                (''onNativeLoad'', if truthy (get_prop [(''onBeforeLoad'', VNull), (''mixins'', VRef 1)] ''onLoad'')
                                   then get_prop [(''onBeforeLoad'', VNull), (''mixins'', VRef 1)] ''onLoad'' else VFun Noop)]) = exC_final"
    by code_simp
qed

lemma exE_run: "mixin exE 0 = Inr exE_final"
proof (rule mixin_intro)
  show "cell_at exE 0 = Some (Obj [(''onShow'', VFun (UserFn 10)), (''mixins'', VRef 1)])"
    by code_simp
  show "nativeData_of exE (get_prop [(''onShow'', VFun (UserFn 10)), (''mixins'', VRef 1)] ''data'') = Inr (4, exE @ [Obj []])"
    by code_simp
  show "mixins_of (exE @ [Obj []]) (get_prop [(''onShow'', VFun (UserFn 10)), (''mixins'', VRef 1)] ''mixins'') = Inr [VRef 2]"
    by code_simp
  show "getMixinData (exE @ [Obj []]) [VRef 2] = Inr []"
    by code_simp
  show "getMixinMethods (exE @ [Obj []]) [VRef 2] = Inr ([(''onShow'', VFun (UserFn 1))], exE @ [Obj []])"
    by code_simp
  show "mixMethods [(''onShow'', VFun (UserFn 1))] 0
          (assign (mixData [] 4 (exE @ [Obj []])) 0
             [(''data'', VRef 4), (''onLoad'', VFun OnLoadFn),
                (''onBeforeLoad'', dflt (get_prop [(''onShow'', VFun (UserFn 10)), (''mixins'', VRef 1)] ''onBeforeLoad'') (VFun Noop)),
                (''onAfterLoad'', dflt (get_prop [(''onShow'', VFun (UserFn 10)), (''mixins'', VRef 1)] ''onAfterLoad'') (VFun Noop)),
                (''onNativeLoad'', if truthy (get_prop [(''onShow'', VFun (UserFn 10)), (''mixins'', VRef 1)] ''onLoad'')
                                   then get_prop [(''onShow'', VFun (UserFn 10)), (''mixins'', VRef 1)] ''onLoad'' else VFun Noop)]) = exE_final"
    by code_simp
qed



lemma exG_run: "mixin exG 0 = Inr exG_final"
proof (rule mixin_intro)
  show "cell_at exG 0 = Some (Obj [(''data'', VRef 3), (''mixins'', VRef 1)])"
    by code_simp
  show "nativeData_of exG (get_prop [(''data'', VRef 3), (''mixins'', VRef 1)] ''data'') = Inr (3, exG)"
    by code_simp
  show "mixins_of (exG) (get_prop [(''data'', VRef 3), (''mixins'', VRef 1)] ''mixins'') = Inr [VRef 2, VRef 4]"
    by code_simp
  show "getMixinData (exG) [VRef 2, VRef 4] = Inr [(''a'', VNum 1), (''b'', VNum 2)]"
    by code_simp
  show "getMixinMethods (exG) [VRef 2, VRef 4] = Inr ([], exG)"
    by code_simp
  show "mixMethods [] 0
          (assign (mixData [(''a'', VNum 1), (''b'', VNum 2)] 3 (exG)) 0
             [(''data'', VRef 3), (''onLoad'', VFun OnLoadFn),
                (''onBeforeLoad'', dflt (get_prop [(''data'', VRef 3), (''mixins'', VRef 1)] ''onBeforeLoad'') (VFun Noop)),
                (''onAfterLoad'', dflt (get_prop [(''data'', VRef 3), (''mixins'', VRef 1)] ''onAfterLoad'') (VFun Noop)),
                (''onNativeLoad'', if truthy (get_prop [(''data'', VRef 3), (''mixins'', VRef 1)] ''onLoad'')
                                   then get_prop [(''data'', VRef 3), (''mixins'', VRef 1)] ''onLoad'' else VFun Noop)]) = exG_final"
    by code_simp
qed

lemma ex_store_well_shaped: "well_shaped ex_store 0"
  by code_simp


section \<open>The merged data\<close>

text \<open>
  The statements below about the result of the merge are for a page configuration whose
  \<open>data\<close> is not the configuration object itself, which is the hypothesis
  \<open>member s (VRef p) ''data'' \<noteq> VRef p\<close>: the interfaces give the data mapping and the
  configuration different shapes, and were the two one object, the data merge would write
  the data of the mixins among the page's own properties.
\<close>



section \<open>Plain methods\<close>







section \<open>The load hooks and lifecycle names defined in methods only\<close>

lemma onLoad_not_collected:
  assumes "mixin s p = Inr s'" and "member s (VRef p) ''data'' \<noteq> VRef p"
  shows "member s' (VRef p) ''onLoad'' = VFun OnLoadFn"
proof (rule mixin_final [OF assms])
  fix pc d s0 md mm s1 pc3
  assume ok: "ret_ok (length s0) mm s1"
    and g3: "\<And>k. get_prop pc3 k = assigned_prop pc d k"
    and fin: "\<And>k. member s' (VRef p) k =
            (if k \<in> set (object_keys mm) then merged_prop s1 mm pc3 k else get_prop pc3 k)"
  from ret_okD(2) [OF ok] show ?thesis
    by (simp add: fin g3 assigned_prop_def)
qed

lemma not_page_event_hooks:
  "''onBeforeLoad'' \<notin> set PAGE_EVENT" "''onAfterLoad'' \<notin> set PAGE_EVENT"
  "''onNativeLoad'' \<notin> set PAGE_EVENT"
  by (simp_all add: PAGE_EVENT_def)

lemma dflt_not_nullish: "v \<noteq> VNull \<Longrightarrow> \<not> nullish (dflt v (VFun Noop))"
  by (simp add: dflt_def nullish_def)

text \<open>
  Claim C8, as amended. Provided the page does not hold \<open>null\<close> under \<open>onBeforeLoad\<close>
  (respectively \<open>onAfterLoad\<close>), the final value of that slot is the page's own value,
  or the no-op when the page has none, whatever the mixins contribute under that name;
  and the final \<open>onLoad\<close> is the fixed sequence, which reads these slots when it runs.
\<close>

theorem load_hooks_from_page_only:
  assumes "mixin s p = Inr s'" and "member s (VRef p) ''data'' \<noteq> VRef p"
  shows "(member s (VRef p) ''onBeforeLoad'' \<noteq> VNull \<longrightarrow>
            member s' (VRef p) ''onBeforeLoad''
              = dflt (member s (VRef p) ''onBeforeLoad'') (VFun Noop))
       \<and> (member s (VRef p) ''onAfterLoad'' \<noteq> VNull \<longrightarrow>
            member s' (VRef p) ''onAfterLoad''
              = dflt (member s (VRef p) ''onAfterLoad'') (VFun Noop))
       \<and> member s' (VRef p) ''onLoad'' = VFun OnLoadFn"
proof (intro conjI impI)
  assume nn: "member s (VRef p) ''onBeforeLoad'' \<noteq> VNull"
  from final_plain_kept [OF assms not_page_event_hooks(1)] obtain pc d where
    pc: "cell_at s p = Some (Obj pc)"
    and v: "\<not> nullish (assigned_prop pc d ''onBeforeLoad'') \<longrightarrow>
              member s' (VRef p) ''onBeforeLoad'' = assigned_prop pc d ''onBeforeLoad''"
    by blast
  have a: "assigned_prop pc d ''onBeforeLoad'' = dflt (get_prop pc ''onBeforeLoad'') (VFun Noop)"
    by (simp add: assigned_prop_def)
  from nn have "\<not> nullish (dflt (get_prop pc ''onBeforeLoad'') (VFun Noop))"
    by (intro dflt_not_nullish) (simp add: member_obj [OF pc])
  with v show "member s' (VRef p) ''onBeforeLoad''
              = dflt (member s (VRef p) ''onBeforeLoad'') (VFun Noop)"
    by (simp add: a member_obj [OF pc])
next
  assume nn: "member s (VRef p) ''onAfterLoad'' \<noteq> VNull"
  from final_plain_kept [OF assms not_page_event_hooks(2)] obtain pc d where
    pc: "cell_at s p = Some (Obj pc)"
    and v: "\<not> nullish (assigned_prop pc d ''onAfterLoad'') \<longrightarrow>
              member s' (VRef p) ''onAfterLoad'' = assigned_prop pc d ''onAfterLoad''"
    by blast
  have a: "assigned_prop pc d ''onAfterLoad'' = dflt (get_prop pc ''onAfterLoad'') (VFun Noop)"
    by (simp add: assigned_prop_def)
  from nn have "\<not> nullish (dflt (get_prop pc ''onAfterLoad'') (VFun Noop))"
    by (intro dflt_not_nullish) (simp add: member_obj [OF pc])
  with v show "member s' (VRef p) ''onAfterLoad''
              = dflt (member s (VRef p) ''onAfterLoad'') (VFun Noop)"
    by (simp add: a member_obj [OF pc])
next
  show "member s' (VRef p) ''onLoad'' = VFun OnLoadFn"
    by (rule onLoad_not_collected [OF assms])
qed

theorem load_hooks_from_page_only_witness:
  "mixin exB 0 = Inr exB_final
   \<and> member exB (VRef 0) ''onBeforeLoad'' \<noteq> VNull
   \<and> get_prop (mixin_methods exB (VRef 4)) ''onBeforeLoad'' = VFun (UserFn 2)
   \<and> member exB_final (VRef 0) ''onBeforeLoad'' = VFun Noop
   \<and> member exB_final (VRef 0) ''onAfterLoad'' = VFun Noop
   \<and> member exB_final (VRef 0) ''onLoad'' = VFun OnLoadFn"
proof -
  have own: "member exB (VRef 0) ''data'' \<noteq> VRef 0" by code_simp
  have b: "member exB (VRef 0) ''onBeforeLoad'' = VUndefined" by code_simp
  have a: "member exB (VRef 0) ''onAfterLoad'' = VUndefined" by code_simp
  have m: "get_prop (mixin_methods exB (VRef 4)) ''onBeforeLoad'' = VFun (UserFn 2)"
    by code_simp
  from load_hooks_from_page_only [OF exB_run own] a b
  have "member exB_final (VRef 0) ''onBeforeLoad'' = VFun Noop
      \<and> member exB_final (VRef 0) ''onAfterLoad'' = VFun Noop
      \<and> member exB_final (VRef 0) ''onLoad'' = VFun OnLoadFn"
    by (simp add: dflt_def)
  with exB_run b m show ?thesis by simp
qed

text \<open>
  Claim C8 as stated fails when the page holds \<open>null\<close> under \<open>onBeforeLoad\<close>: the
  destructuring default leaves \<open>null\<close> in place, the slot is \<open>null\<close> when the generic
  merge runs, and the function of the mixin's \<open>methods\<close> is installed.
\<close>

theorem mixin_hook_installed_counterexample:
  "mixin exC 0 = Inr exC_final
   \<and> member exC (VRef 0) ''onBeforeLoad'' = VNull
   \<and> page_mixins exC 0 = [VRef 2]
   \<and> get_prop (mixin_methods exC (VRef 2)) ''onBeforeLoad'' = VFun (UserFn 1)
   \<and> member exC_final (VRef 0) ''onBeforeLoad'' = VFun (UserFn 1)
   \<and> member exC_final (VRef 0) ''onBeforeLoad'' \<noteq> VFun Noop
   \<and> member exC_final (VRef 0) ''onBeforeLoad'' \<noteq> member exC (VRef 0) ''onBeforeLoad''"
proof (intro conjI)
  show "mixin exC 0 = Inr exC_final" by (rule exC_run)
  show "member exC (VRef 0) ''onBeforeLoad'' = VNull" by code_simp
  show "page_mixins exC 0 = [VRef 2]" by code_simp
  show "get_prop (mixin_methods exC (VRef 2)) ''onBeforeLoad'' = VFun (UserFn 1)" by code_simp
  show "member exC_final (VRef 0) ''onBeforeLoad'' = VFun (UserFn 1)" by code_simp
  show "member exC_final (VRef 0) ''onBeforeLoad'' \<noteq> VFun Noop" by code_simp
  show "member exC_final (VRef 0) ''onBeforeLoad'' \<noteq> member exC (VRef 0) ''onBeforeLoad''"
    by code_simp
qed

lemma collector_method_only:
  assumes mm: "getMixinMethods st ms = Inr (mm, st')"
    and E: "E \<noteq> ''onLoad''"
    and nohook: "\<forall>m\<in>set ms. \<not> isFunction (member st m E)"
    and some: "\<exists>m\<in>set ms. isFunction (get_prop (mixin_methods st m) E)"
  shows "isFunction (get_prop mm E)"
proof -
  from some E have "\<exists>m\<in>set ms. defines_method st m E"
    by (simp add: defines_method_def)
  from split_list_last_prop [OF this] obtain ms1 m ms2 where
    sp: "ms = ms1 @ m # ms2" and def: "defines_method st m E"
    and later: "\<forall>m'\<in>set ms2. \<not> defines_method st m' E" by blast
  have nh: "\<forall>m'\<in>set (m # ms2). \<not> defines_hook st m' E"
    using nohook sp by (simp add: defines_hook_def)
  have "st = st @ []" "list_all propless []" by simp_all
  with mm [unfolded sp] have "get_prop mm E = get_prop (mixin_methods st m) E"
    using def later nh by (rule collected_last)
  with def show ?thesis by (simp add: defines_method_fn)
qed

text \<open>
  Claim C10. Let \<open>E\<close> be a lifecycle event other than \<open>onLoad\<close> that no mixin defines as
  a function among its own properties, while some mixin defines it as a function in its
  \<open>methods\<close>. Then the collector accumulates a single function for \<open>E\<close>, not a list, and
  the merge leaves the page's property \<open>E\<close> exactly as it was.
\<close>

theorem method_only_event_dropped:
  assumes "mixin s p = Inr s'" and "member s (VRef p) ''data'' \<noteq> VRef p"
    and "E \<in> set PAGE_EVENT" and "E \<noteq> ''onLoad''"
    and "\<forall>m\<in>set (page_mixins s p). \<not> isFunction (member s m E)"
    and "\<exists>m\<in>set (page_mixins s p). isFunction (get_prop (mixin_methods s m) E)"
  shows "member s' (VRef p) E = member s (VRef p) E
       \<and> (\<forall>mm s1. getMixinMethods s (page_mixins s p) = Inr (mm, s1) \<longrightarrow>
              isFunction (get_prop mm E) \<and> \<not> isArray s1 (get_prop mm E))
       \<and> (\<exists>s0 mm s1. (\<exists>ext. s0 = s @ ext) \<and>
              getMixinMethods s0 (page_mixins s p) = Inr (mm, s1) \<and> isFunction (get_prop mm E))"
proof (intro conjI allI impI)
  show "member s' (VRef p) E = member s (VRef p) E"
    by (rule final_event_kept(1) [OF assms(1-5)])
  show "\<exists>s0 mm s1. (\<exists>ext. s0 = s @ ext) \<and>
              getMixinMethods s0 (page_mixins s p) = Inr (mm, s1) \<and> isFunction (get_prop mm E)"
    using final_event_kept(2) [OF assms(1-5)] assms(6) by blast
  fix mm s1
  assume "getMixinMethods s (page_mixins s p) = Inr (mm, s1)"
  from collector_method_only [OF this assms(4,5,6)]
  show "isFunction (get_prop mm E)" .
  then show "\<not> isArray s1 (get_prop mm E)" by (rule isFunction_not_array)
qed

theorem method_only_event_dropped_witness:
  "mixin exE 0 = Inr exE_final
   \<and> page_mixins exE 0 = [VRef 2]
   \<and> member exE (VRef 2) ''onShow'' = VUndefined
   \<and> get_prop (mixin_methods exE (VRef 2)) ''onShow'' = VFun (UserFn 1)
   \<and> member exE (VRef 0) ''onShow'' = VFun (UserFn 10)
   \<and> member exE_final (VRef 0) ''onShow'' = VFun (UserFn 10)
   \<and> getMixinMethods exE [VRef 2] = Inr ([(''onShow'', VFun (UserFn 1))], exE)"
proof -
  have own: "member exE (VRef 0) ''data'' \<noteq> VRef 0" by code_simp
  have E: "''onShow'' \<in> set PAGE_EVENT" "''onShow'' \<noteq> ''onLoad''" by code_simp+
  have pm: "page_mixins exE 0 = [VRef 2]" by code_simp
  have h: "member exE (VRef 2) ''onShow'' = VUndefined" by code_simp
  have m: "get_prop (mixin_methods exE (VRef 2)) ''onShow'' = VFun (UserFn 1)" by code_simp
  have pv: "member exE (VRef 0) ''onShow'' = VFun (UserFn 10)" by code_simp
  have c: "getMixinMethods exE [VRef 2] = Inr ([(''onShow'', VFun (UserFn 1))], exE)"
    by code_simp
  have nohook: "\<forall>m\<in>set (page_mixins exE 0). \<not> isFunction (member exE m ''onShow'')"
    by (simp add: pm h isFunction_def)
  have some: "\<exists>m\<in>set (page_mixins exE 0). isFunction (get_prop (mixin_methods exE m) ''onShow'')"
    by (simp add: pm m isFunction_def)
  from method_only_event_dropped [OF exE_run own E nohook some] pv
  have "member exE_final (VRef 0) ''onShow'' = VFun (UserFn 10)" by simp
  with exE_run pm h m pv c show ?thesis by blast
qed

section \<open>Calls of the merged functions\<close>

lemma call_user:
  "call (Suc n) env (VFun (UserFn h)) this args st
     = Some (Inr (env h this args), (fst st, snd st @ [(h, this, args)]))"
  by simp

lemma call_noop: "call (Suc n) env (VFun Noop) this args st = Some (Inr VUndefined, st)"
  by (simp add: returns_def)






section \<open>Lifecycle dispatchers\<close>

lemma hooks_fns: "list_all isFunction (hooks s ms k)"
  by (simp add: hooks_def list_all_iff)







text \<open>
  Claim C1 at its failing input: page \<open>{onShow: hp}\<close> with mixins \<open>[{onShow: h1},
  {onShow: h2}]\<close> (here \<open>hp = 10\<close>, \<open>h1 = 1\<close>, \<open>h2 = 2\<close>). The first invocation of the
  merged \<open>onShow\<close> calls \<open>h1\<close>, \<open>h2\<close>, \<open>hp\<close>. It reverses the handler list in place, so
  the second invocation calls \<open>hp\<close> first with the call arguments, then \<open>h2\<close>, then
  \<open>h1\<close>, and leaves the list in its first order again.
\<close>

theorem second_invocation_reversed:
  "mixin ex_store 0 = Inr ex_final
   \<and> invoke 2 ex_env 0 ''onShow'' [VNum 7] (ex_final, [])
       = Some (Inr VUndefined,
               (ex_after1,
                [(1, VRef 0, [VNum 7]), (2, VRef 0, [VNum 107]), (10, VRef 0, [VNum 307])]))
   \<and> invoke 2 ex_env 0 ''onShow'' [VNum 7] (ex_after1, [])
       = Some (Inr VUndefined,
               (ex_final,
                [(10, VRef 0, [VNum 7]), (2, VRef 0, [VNum 1007]), (1, VRef 0, [VNum 1207])]))"
proof (intro conjI)
  show "mixin ex_store 0 = Inr ex_final" by (rule ex_run)
  show "invoke 2 ex_env 0 ''onShow'' [VNum 7] (ex_final, [])
       = Some (Inr VUndefined,
               (ex_after1,
                [(1, VRef 0, [VNum 7]), (2, VRef 0, [VNum 107]), (10, VRef 0, [VNum 307])]))"
    by code_simp
  show "invoke 2 ex_env 0 ''onShow'' [VNum 7] (ex_after1, [])
       = Some (Inr VUndefined,
               (ex_final,
                [(10, VRef 0, [VNum 7]), (2, VRef 0, [VNum 1007]), (1, VRef 0, [VNum 1207])]))"
    by code_simp
qed

section \<open>The load sequence\<close>








section \<open>What the merge writes\<close>

lemma mixMethods_frame:
  assumes "\<And>k. get_prop mm k \<noteq> VRef a" and "a \<noteq> p"
  shows "cell_at (mixMethods mm p s) a = cell_at s a"
proof -
  have "cell_at (fold (mixMethods_step mm p) ks s) a = cell_at s a" for ks
    by (induction ks arbitrary: s) (simp_all add: mixMethods_step_array_other [OF assms])
  then show ?thesis by (simp add: mixMethods_def)
qed

lemma collector_fresh:
  assumes "getMixinMethods st ms = Inr (mm, st')" and "get_prop mm k = VRef a"
  shows "length st \<le> a" and "a < length st'" and "isArray st' (VRef a)"
    and "\<And>b. b < length st \<Longrightarrow> cell_at st' b = cell_at st b"
proof -
  from getMixinMethods_facts [OF assms(1)] obtain ext where
    ok: "ret_ok (length st) mm st'" and ext: "st' = st @ ext" by blast
  from ret_okD(3) [OF ok, of k] show "length st \<le> a" and arr: "isArray st' (VRef a)"
    by (cases rule: val_ok_cases; simp add: assms(2) not_fn_ref)+
  from arr show "a < length st'" by (rule isArray_lt)
  show "cell_at st' b = cell_at st b" if "b < length st" for b
    using that by (simp add: ext)
qed

lemma merge_writes:
  assumes run: "mixin s p = Inr s'"
    and a: "a < length s" "a \<noteq> p" "member s (VRef p) ''data'' \<noteq> VRef a"
  shows "cell_at s' a = cell_at s a"
proof (rule mixin_stages [OF run])
  fix pc d s0 ms md mm s1
  assume pc: "cell_at s p = Some (Obj pc)"
    and nd: "nativeData_of s (get_prop pc ''data'') = Inr (d, s0)"
    and mm: "getMixinMethods s0 ms = Inr (mm, s1)"
    and s': "s' = mixMethods mm p
            (assign (mixData md d s1) p
               [(''data'', VRef d), (''onLoad'', VFun OnLoadFn),
                (''onBeforeLoad'', dflt (get_prop pc ''onBeforeLoad'') (VFun Noop)),
                (''onAfterLoad'', dflt (get_prop pc ''onAfterLoad'') (VFun Noop)),
                (''onNativeLoad'', if truthy (get_prop pc ''onLoad'')
                                   then get_prop pc ''onLoad'' else VFun Noop)])"
  from nativeData_of_facts(1) [OF nd] obtain e0 where e0: "s0 = s @ e0" by blast
  from getMixinMethods_facts [OF mm] obtain e1 where
    ok: "ret_ok (length s0) mm s1" and e1: "s1 = s0 @ e1" by blast
  have ad: "a \<noteq> d"
    using nativeData_of_facts(3) [OF nd] a(1,3) by (auto simp: member_obj [OF pc])
  have refs: "get_prop mm k \<noteq> VRef a" for k
  proof
    assume r: "get_prop mm k = VRef a"
    from collector_fresh(1) [OF mm r] a(1) show False by (simp add: e0)
  qed
  have "cell_at s' a = cell_at (mixData md d s1) a"
    unfolding s' by (simp add: mixMethods_frame [OF refs a(2)] assign_other [OF a(2)])
  also have "\<dots> = cell_at s1 a" using ad by (rule mixData_other)
  also have "\<dots> = cell_at s a" using a(1) by (simp add: e1 e0)
  finally show ?thesis .
qed

lemma length_merge:
  assumes run: "mixin s p = Inr s'"
  shows "length s \<le> length s'"
proof (rule mixin_stages [OF run])
  fix pc d s0 ms md mm s1
  assume nd: "nativeData_of s (get_prop pc ''data'') = Inr (d, s0)"
    and mm: "getMixinMethods s0 ms = Inr (mm, s1)"
    and s': "s' = mixMethods mm p
            (assign (mixData md d s1) p
               [(''data'', VRef d), (''onLoad'', VFun OnLoadFn),
                (''onBeforeLoad'', dflt (get_prop pc ''onBeforeLoad'') (VFun Noop)),
                (''onAfterLoad'', dflt (get_prop pc ''onAfterLoad'') (VFun Noop)),
                (''onNativeLoad'', if truthy (get_prop pc ''onLoad'')
                                   then get_prop pc ''onLoad'' else VFun Noop)])"
  from nativeData_of_facts(1) [OF nd] obtain e0 where e0: "s0 = s @ e0" by blast
  from getMixinMethods_facts [OF mm] obtain e1 where e1: "s1 = s0 @ e1" by blast
  show ?thesis by (simp add: s' e1 e0)
qed

text \<open>
  Claim C9, as amended. The merge writes to the page configuration object, to the page's
  own data object and to arrays it has created itself, and to nothing else: every object
  and array of the initial store other than the page configuration and the page's data
  object is the same after the entry point has run. So no mixin's object, data mapping or
  methods mapping changes, unless it is itself the page configuration or the page's data
  object. The arrays in which the collector accumulates lifecycle handlers are new: they
  lie beyond the store the collector started from, which it leaves as it was.
\<close>

theorem merge_frame:
  assumes "mixin s p = Inr s'"
  shows "length s \<le> length s'
       \<and> (\<forall>a. a < length s \<and> a \<noteq> p \<and> member s (VRef p) ''data'' \<noteq> VRef a \<longrightarrow>
              cell_at s' a = cell_at s a
              \<and> (\<forall>k. member s' (VRef a) k = member s (VRef a) k)
              \<and> entries_of s' (VRef a) = entries_of s (VRef a))
       \<and> (\<forall>st ms mm st' k a. getMixinMethods st ms = Inr (mm, st') \<and> get_prop mm k = VRef a \<longrightarrow>
              length st \<le> a \<and> a < length st' \<and> isArray st' (VRef a)
              \<and> (\<forall>b. b < length st \<longrightarrow> cell_at st' b = cell_at st b))"
proof (intro conjI allI impI)
  show "length s \<le> length s'" by (rule length_merge [OF assms])
next
  fix a
  assume a: "a < length s \<and> a \<noteq> p \<and> member s (VRef p) ''data'' \<noteq> VRef a"
  then show c: "cell_at s' a = cell_at s a"
    by (intro merge_writes [OF assms]) simp_all
  show "member s' (VRef a) k = member s (VRef a) k" for k
    by (simp add: member_def c)
  show "entries_of s' (VRef a) = entries_of s (VRef a)"
    by (simp add: entries_of_def own_entries_def c)
next
  fix st ms mm st' k a
  assume c: "getMixinMethods st ms = Inr (mm, st') \<and> get_prop mm k = VRef a"
  then have g: "getMixinMethods st ms = Inr (mm, st')" and r: "get_prop mm k = VRef a"
    by simp_all
  show "length st \<le> a" by (rule collector_fresh(1) [OF g r])
  show "a < length st'" by (rule collector_fresh(2) [OF g r])
  show "isArray st' (VRef a)" by (rule collector_fresh(3) [OF g r])
  show "cell_at st' b = cell_at st b" if "b < length st" for b
    using that by (rule collector_fresh(4) [OF g r])
qed

theorem merge_frame_witness:
  "mixin ex_store 0 = Inr ex_final
   \<and> page_mixins ex_store 0 = [VRef 3, VRef 5]
   \<and> member ex_store (VRef 0) ''data'' = VRef 1
   \<and> member ex_store (VRef 3) ''data'' = VRef 4
   \<and> cell_at ex_final 3 = cell_at ex_store 3
   \<and> cell_at ex_final 4 = cell_at ex_store 4
   \<and> getMixinMethods ex_store [VRef 3, VRef 5]
        = Inr ([(''onShow'', VRef 8)],
               ex_store @ [Arr [VFun (UserFn 1)], Arr [VFun (UserFn 1), VFun (UserFn 2)]])
   \<and> length ex_store \<le> 8"
proof -
  have pm: "page_mixins ex_store 0 = [VRef 3, VRef 5]" by code_simp
  have d: "member ex_store (VRef 0) ''data'' = VRef 1" by code_simp
  have md: "member ex_store (VRef 3) ''data'' = VRef 4" by code_simp
  have len: "length ex_store = 7" by code_simp
  have g: "getMixinMethods ex_store [VRef 3, VRef 5]
        = Inr ([(''onShow'', VRef 8)],
               ex_store @ [Arr [VFun (UserFn 1)], Arr [VFun (UserFn 1), VFun (UserFn 2)]])"
    by code_simp
  have r: "get_prop [(''onShow'', VRef 8)] ''onShow'' = VRef 8" by code_simp
  note f = merge_frame [OF ex_run]
  from f have "cell_at ex_final 3 = cell_at ex_store 3"
    by (simp add: d len)
  moreover from f have "cell_at ex_final 4 = cell_at ex_store 4"
    by (simp add: d len)
  moreover from f g r have "length ex_store \<le> 8" by blast
  ultimately show ?thesis using ex_run pm d md g by blast
qed

text \<open>
  Claim C9 as stated fails when the page's \<open>data\<close> is the same object as the \<open>data\<close> of a
  mixin: the data merge writes the keys of the other mixins into it, so that mixin's data
  mapping is not the same after the merge.
\<close>

theorem mixin_data_mutated_counterexample:
  "mixin exG 0 = Inr exG_final
   \<and> page_mixins exG 0 = [VRef 2, VRef 4]
   \<and> member exG (VRef 0) ''data'' = member exG (VRef 2) ''data''
   \<and> mixin_data exG (VRef 2) = [(''a'', VNum 1)]
   \<and> mixin_data exG_final (VRef 2) = [(''a'', VNum 1), (''b'', VNum 2)]"
proof (intro conjI)
  show "mixin exG 0 = Inr exG_final" by (rule exG_run)
  show "page_mixins exG 0 = [VRef 2, VRef 4]" by code_simp
  show "member exG (VRef 0) ''data'' = member exG (VRef 2) ''data''" by code_simp
  show "mixin_data exG (VRef 2) = [(''a'', VNum 1)]" by code_simp
  show "mixin_data exG_final (VRef 2) = [(''a'', VNum 1), (''b'', VNum 2)]" by code_simp
qed

end
